theory Spec2Isabelle
  imports Main "HOL-Library.Char_ord" "HOL-Library.List_Lexorder" "HOL-Library.Multiset"
begin

section \<open>Shared vocabulary\<close>

text \<open>
  Strings are byte lists; JavaScript's \<^verbatim>\<open>Array.prototype.join\<close> on an array of
  strings is \<open>join\<close>: the empty array gives the empty string, and the separator stands
  between neighbours only.
\<close>

fun join :: "string \<Rightarrow> string list \<Rightarrow> string" where
  "join sep [] = []"
| "join sep [x] = x"
| "join sep (x # y # ys) = x @ sep @ join sep (y # ys)"

text \<open>
  A message of the messaging client, as far as the code reads it: its identifier, the
  inbox that sent it and its text content.
\<close>

record decoded_message =
  m_id :: string
  m_senderInboxId :: string
  m_content :: string

section \<open>The staleness detector (\<^verbatim>\<open>DBHealthService\<close>)\<close>

record conversation_hash =
  hash :: string
  repeatCount :: nat
  lastMessageIds :: "string list"

type_synonym conversationHashes = "string \<rightharpoonup> conversation_hash"

definition REPEAT_THRESHOLD :: nat where
  "REPEAT_THRESHOLD = 3"

text \<open>
  \<^verbatim>\<open>messages.map((m) => m.id).sort()\<close> followed by \<^verbatim>\<open>join("|")\<close>. The default sort
  of JavaScript orders strings by their code units, which is the lexicographic order on
  character lists.
\<close>

definition sortedMessageIds :: "decoded_message list \<Rightarrow> string list" where
  "sortedMessageIds messages = sort (map m_id messages)"

definition fingerprint :: "decoded_message list \<Rightarrow> string" where
  "fingerprint messages = join ''|'' (sortedMessageIds messages)"

text \<open>
  \<^verbatim>\<open>checkMessageArray\<close> mutates the cached record in place; the model returns the
  answer together with the updated table.
\<close>

definition checkMessageArray ::
  "string \<Rightarrow> decoded_message list \<Rightarrow> conversationHashes \<Rightarrow> bool \<times> conversationHashes" where
  "checkMessageArray conversationId messages tbl =
     (let messageIds = sortedMessageIds messages;
          h = join ''|'' messageIds
      in case tbl conversationId of
           None \<Rightarrow>
             (False, tbl(conversationId \<mapsto>
                \<lparr>hash = h, repeatCount = 1, lastMessageIds = messageIds\<rparr>))
         | Some cached \<Rightarrow>
             if hash cached = h then
               (let cached' = cached\<lparr>repeatCount := repeatCount cached + 1\<rparr>
                in (REPEAT_THRESHOLD \<le> repeatCount cached', tbl(conversationId \<mapsto> cached')))
             else
               (False, tbl(conversationId \<mapsto>
                  cached\<lparr>hash := h, repeatCount := 1, lastMessageIds := messageIds\<rparr>)))"

text \<open>Consecutive observations of one conversation: the answers, in call order.\<close>

fun observations ::
  "string \<Rightarrow> decoded_message list list \<Rightarrow> conversationHashes \<Rightarrow> bool list" where
  "observations conversationId [] tbl = []"
| "observations conversationId (ms # mss) tbl =
     (case checkMessageArray conversationId ms tbl of
        (r, tbl') \<Rightarrow> r # observations conversationId mss tbl')"

section \<open>The backend collaborator (\<^verbatim>\<open>BackendApiService\<close>)\<close>

text \<open>
  A thrown JavaScript error, with its message. Functions that can throw return
  \<open>js_error + 'a\<close>, with \<open>Inl\<close> for the throw (a rejected promise, for an async
  function).
\<close>

datatype js_error = Error string

record backend_message_request =
  req_message :: string
  req_userAddress :: string
  req_ensName :: string
  req_chainId :: nat
  req_conversationId :: string
  req_xmtpServiceUrl :: "string option"

record backend_data =
  d_response :: string
  d_agentId :: string
  d_walletAddress :: string
  d_threadId :: "string option"

record backend_message_response =
  r_success :: bool
  r_data :: "backend_data option"
  r_error :: "string option"

text \<open>
  The outcome of \<^verbatim>\<open>axios.post\<close>: a rejection (network error, the 120 second timeout,
  a status outside 2xx) or a response body.
\<close>

datatype axios_result = AxiosError string | AxiosResponse backend_message_response

type_synonym axios_post = "string \<Rightarrow> backend_message_request \<Rightarrow> axios_result"

record backend_api_service =
  apiUrl :: string
  defaultAgentId :: string

text \<open>\<^verbatim>\<open>a || b\<close> on strings: the empty string and \<^verbatim>\<open>undefined\<close> are falsy.\<close>

definition or_else :: "string option \<Rightarrow> string \<Rightarrow> string" where
  "or_else a b = (case a of None \<Rightarrow> b | Some s \<Rightarrow> if s = [] then b else s)"

text \<open>\<^verbatim>\<open>responseText.replace(/\*\*/g, "")\<close>: every match of two stars, left to right.\<close>

fun strip_bold :: "string \<Rightarrow> string" where
  "strip_bold (a # b # cs) =
     (if a = CHR ''*'' \<and> b = CHR ''*'' then strip_bold cs else a # strip_bold (b # cs))"
| "strip_bold cs = cs"

definition TECHNICAL_DIFFICULTIES :: string where
  "TECHNICAL_DIFFICULTIES =
     ''Sorry, I'm experiencing technical difficulties. Please try again in a moment.''"

text \<open>The body of the \<^verbatim>\<open>try\<close> block of \<^verbatim>\<open>processMessage\<close> (logging left out).\<close>

definition processMessage_try ::
  "backend_api_service \<Rightarrow> string option \<Rightarrow> axios_post \<Rightarrow>
   string \<Rightarrow> string \<Rightarrow> string \<Rightarrow> string option \<Rightarrow> js_error + string" where
  "processMessage_try svc XMTP_SERVICE_URL post message senderAddress conversationId agentId =
     (let targetAgentId = or_else agentId (defaultAgentId svc);
          request = \<lparr>req_message = message, req_userAddress = senderAddress,
                     req_ensName = [], req_chainId = 8453,
                     req_conversationId = conversationId,
                     req_xmtpServiceUrl = XMTP_SERVICE_URL\<rparr>
      in case post (apiUrl svc @ ''/api/v1/agents/'' @ targetAgentId @ ''/xmtp'') request of
           AxiosError e \<Rightarrow> Inl (Error e)
         | AxiosResponse response \<Rightarrow>
             if \<not> r_success response then
               Inl (Error (or_else (r_error response)
                             ''Backend returned unsuccessful response''))
             else
               (let responseText =
                      or_else (map_option d_response (r_data response)) ''Response received'';
                    cleanedText = strip_bold responseText
                in Inr cleanedText))"

text \<open>\<^verbatim>\<open>processMessage\<close>: the \<^verbatim>\<open>catch\<close> turns every throw of the body into the apology.\<close>

definition processMessage ::
  "backend_api_service \<Rightarrow> string option \<Rightarrow> axios_post \<Rightarrow>
   string \<Rightarrow> string \<Rightarrow> string \<Rightarrow> string option \<Rightarrow> js_error + string" where
  "processMessage svc XMTP_SERVICE_URL post message senderAddress conversationId agentId =
     (case processMessage_try svc XMTP_SERVICE_URL post message senderAddress
             conversationId agentId of
        Inl error \<Rightarrow> Inr TECHNICAL_DIFFICULTIES
      | Inr cleanedText \<Rightarrow> Inr cleanedText)"

text \<open>
  The backend call has failed when the request was rejected or the response's success
  flag is false.
\<close>

definition backend_failed :: "axios_result \<Rightarrow> bool" where
  "backend_failed res =
     (case res of AxiosError e \<Rightarrow> True | AxiosResponse response \<Rightarrow> \<not> r_success response)"

text \<open>
  The URL and the body that \<^verbatim>\<open>processMessage\<close> hands to \<^verbatim>\<open>axios.post\<close>, under
  names of their own for use in statements.
\<close>

definition request_url :: "backend_api_service \<Rightarrow> string option \<Rightarrow> string" where
  "request_url svc agentId =
     apiUrl svc @ ''/api/v1/agents/'' @ or_else agentId (defaultAgentId svc) @ ''/xmtp''"

definition request_body :: "string option \<Rightarrow> string \<Rightarrow> string \<Rightarrow> string \<Rightarrow> backend_message_request" where
  "request_body XMTP_SERVICE_URL message senderAddress conversationId =
     \<lparr>req_message = message, req_userAddress = senderAddress,
      req_ensName = [], req_chainId = 8453,
      req_conversationId = conversationId,
      req_xmtpServiceUrl = XMTP_SERVICE_URL\<rparr>"

section \<open>The deduplication ledger (\<^verbatim>\<open>processedMessages\<close>)\<close>

text \<open>
  A JavaScript \<^verbatim>\<open>Set<string>\<close> keeps its elements in insertion order and holds none
  twice: it is the list of its elements in that order. \<^verbatim>\<open>add\<close> of an element already
  there changes nothing.
\<close>

type_synonym string_set = "string list"

definition set_add :: "string \<Rightarrow> string_set \<Rightarrow> string_set" where
  "set_add x s = (if x \<in> set s then s else s @ [x])"

text \<open>\<^verbatim>\<open>entries.slice(-n)\<close>: the last \<open>n\<close> elements, all of them when there are fewer.\<close>

definition slice_last :: "nat \<Rightarrow> 'a list \<Rightarrow> 'a list" where
  "slice_last n xs = drop (length xs - n) xs"

text \<open>
  The clean-up of the text handler: above 1000 entries, clear the set and add the last
  500 again.
\<close>

definition prune :: "string_set \<Rightarrow> string_set" where
  "prune s = (if 1000 < length s then fold set_add (slice_last 500 s) [] else s)"

text \<open>
  The first lines of the two handlers that use the ledger. The answer is whether the
  message is skipped as already processed.
\<close>

definition text_dedup :: "string \<Rightarrow> string_set \<Rightarrow> bool \<times> string_set" where
  "text_dedup messageId processedMessages =
     (if messageId \<in> set processedMessages then (True, processedMessages)
      else (False, prune (set_add messageId processedMessages)))"

definition reply_dedup :: "string \<Rightarrow> string_set \<Rightarrow> bool \<times> string_set" where
  "reply_dedup messageId processedMessages =
     (if messageId \<in> set processedMessages then (True, processedMessages)
      else (False, set_add messageId processedMessages))"

text \<open>The ledger after a run of text messages, or of replies, with the given identifiers.\<close>

definition text_marks :: "string list \<Rightarrow> string_set \<Rightarrow> string_set" where
  "text_marks ids processedMessages = fold (\<lambda>i s. snd (text_dedup i s)) ids processedMessages"

definition reply_marks :: "string list \<Rightarrow> string_set \<Rightarrow> string_set" where
  "reply_marks ids processedMessages = fold (\<lambda>i s. snd (reply_dedup i s)) ids processedMessages"

section \<open>The greeted-groups collaborator (\<^verbatim>\<open>GreetedGroupsService\<close>)\<close>

text \<open>
  Firestore, as far as the service uses it: the documents of the collection, and whether
  calls succeed at the moment (a failing call throws, and the service swallows the throw).
\<close>

record firestore_db =
  fs_docs :: "string set"
  fs_available :: bool

record greeted_groups_service =
  gg_firestore :: firestore_db
  gg_cache :: "string set"

definition hasGreeted :: "string \<Rightarrow> greeted_groups_service \<Rightarrow> bool \<times> greeted_groups_service" where
  "hasGreeted conversationId svc =
     (if conversationId \<in> gg_cache svc then (True, svc)
      else if \<not> fs_available (gg_firestore svc) then (False, svc)
      else
        (let exists = conversationId \<in> fs_docs (gg_firestore svc)
         in (exists, if exists then svc\<lparr>gg_cache := insert conversationId (gg_cache svc)\<rparr>
                     else svc)))"

definition markAsGreeted :: "string \<Rightarrow> greeted_groups_service \<Rightarrow> greeted_groups_service" where
  "markAsGreeted conversationId svc =
     (if \<not> fs_available (gg_firestore svc) then svc
      else svc\<lparr>gg_firestore := (gg_firestore svc)
                  \<lparr>fs_docs := insert conversationId (fs_docs (gg_firestore svc))\<rparr>,
               gg_cache := insert conversationId (gg_cache svc)\<rparr>)"

section \<open>The group greeting of the text handler\<close>

record agent_identity =
  agent_address :: "string option"
  agent_inboxId :: string

text \<open>
  What the handler sees of one inbound text event: the message and conversation
  identifiers, whether the conversation is a group, what reading the history with a
  given limit returns (or that it throws), and whether sending a given text succeeds
  (or throws).
\<close>

record text_event =
  ev_messageId :: string
  ev_content :: string
  ev_conversationId :: string
  ev_isGroup :: bool
  ev_messages :: "nat \<Rightarrow> js_error + decoded_message list"
  ev_sendOk :: "string \<Rightarrow> bool"

definition GREETING_PROMPT :: string where
  "GREETING_PROMPT = ''User just added you to a new group chat. Please introduce yourself briefly and explain that in group chats you only respond when people reply to your messages. Keep it friendly and concise.''"

text \<open>The fallback greeting starts with a waving-hand sign, here as its four UTF-8 bytes.\<close>

definition FALLBACK_GREETING :: string where
  "FALLBACK_GREETING = [CHR 0xF0, CHR 0x9F, CHR 0x91, CHR 0x8B] @ '' Hello! I'm your A0x agent. In group chats, I only respond when you reply to my messages. Reply to this message to start interacting with me!''"

datatype handler_outcome
  = Proceed         \<comment> \<open>the handler goes on to its next step\<close>
  | GreetingReturn  \<comment> \<open>\<^verbatim>\<open>return\<close> at the end of the greeting block\<close>
  | ProcessExit     \<comment> \<open>\<^verbatim>\<open>process.exit(1)\<close> after the database reset\<close>

record greeting_result =
  g_outcome :: handler_outcome
  g_sent :: "string list"
  g_greeted :: greeted_groups_service
  g_hashes :: conversationHashes

text \<open>
  The inner \<^verbatim>\<open>try\<close> of the greeting block: ask the backend for a greeting and
  send it; the \<^verbatim>\<open>catch\<close> sends the fallback greeting. A throw of that last send is
  caught by the enclosing \<^verbatim>\<open>try\<close>, which only logs. The result is the list of texts
  that went out.
\<close>

definition send_greeting ::
  "backend_api_service \<Rightarrow> string option \<Rightarrow> axios_post \<Rightarrow> agent_identity \<Rightarrow> text_event \<Rightarrow>
   string list" where
  "send_greeting backend url post agent ev =
     (case processMessage backend url post GREETING_PROMPT
             (or_else (agent_address agent) ''unknown'') (ev_conversationId ev) None of
        Inr greeting \<Rightarrow>
          if ev_sendOk ev greeting then [greeting]
          else if ev_sendOk ev FALLBACK_GREETING then [FALLBACK_GREETING] else []
      | Inl error \<Rightarrow>
          if ev_sendOk ev FALLBACK_GREETING then [FALLBACK_GREETING] else [])"

text \<open>
  The greeting block of the text handler, from \<^verbatim>\<open>filter.isGroup\<close> to its
  \<^verbatim>\<open>return\<close>.
\<close>

definition text_greeting_block ::
  "backend_api_service \<Rightarrow> string option \<Rightarrow> axios_post \<Rightarrow> agent_identity \<Rightarrow> text_event \<Rightarrow>
   greeted_groups_service \<Rightarrow> conversationHashes \<Rightarrow> greeting_result" where
  "text_greeting_block backend url post agent ev greeted hashes =
     (if \<not> ev_isGroup ev then
        \<lparr>g_outcome = Proceed, g_sent = [], g_greeted = greeted, g_hashes = hashes\<rparr>
      else
        (case hasGreeted (ev_conversationId ev) greeted of
           (True, greeted') \<Rightarrow>
             \<lparr>g_outcome = Proceed, g_sent = [], g_greeted = greeted', g_hashes = hashes\<rparr>
         | (False, greeted') \<Rightarrow>
             (case ev_messages ev 50 of
                Inl error \<Rightarrow>
                  \<lparr>g_outcome = GreetingReturn, g_sent = [],
                   g_greeted = markAsGreeted (ev_conversationId ev) greeted',
                   g_hashes = hashes\<rparr>
              | Inr messages \<Rightarrow>
                  (case checkMessageArray (ev_conversationId ev) messages hashes of
                     (True, hashes') \<Rightarrow>
                       \<lparr>g_outcome = ProcessExit, g_sent = [], g_greeted = greeted',
                        g_hashes = hashes'\<rparr>
                   | (False, hashes') \<Rightarrow>
                       (let agentHasSentMessages =
                              list_ex (\<lambda>msg. m_senderInboxId msg = agent_inboxId agent) messages;
                            sent = (if \<not> agentHasSentMessages
                                    then send_greeting backend url post agent ev else [])
                        in \<lparr>g_outcome = GreetingReturn, g_sent = sent,
                            g_greeted = markAsGreeted (ev_conversationId ev) greeted',
                            g_hashes = hashes'\<rparr>)))))"

section \<open>The conversation mapping store and the reply boundary (\<^verbatim>\<open>ReplyService\<close>)\<close>

text \<open>
  A \<^verbatim>\<open>Date\<close> is its \<^verbatim>\<open>getTime()\<close>: milliseconds since the epoch. Each operation that
  reads the clock (\<^verbatim>\<open>new Date()\<close>) takes the reading as its first argument \<open>now\<close>.
\<close>

record conversation_mapping =
  cm_threadId :: string
  cm_conversationId :: string
  cm_walletAddress :: string
  cm_lastActivity :: int
  cm_agentId :: "string option"

text \<open>
  A JavaScript \<^verbatim>\<open>Map\<close> keeps its entries in insertion order, one per key: an
  association list. \<^verbatim>\<open>get\<close> is \<open>map_of\<close>; \<^verbatim>\<open>set\<close> replaces the value of a key that
  is there, in its place, and appends a new key; \<^verbatim>\<open>delete\<close> removes the key.
\<close>

type_synonym conversationMappings = "(string \<times> conversation_mapping) list"

fun map_set :: "'k \<Rightarrow> 'v \<Rightarrow> ('k \<times> 'v) list \<Rightarrow> ('k \<times> 'v) list" where
  "map_set k v [] = [(k, v)]"
| "map_set k v (e # es) = (if fst e = k then (k, v) # es else e # map_set k v es)"

definition map_delete :: "'k \<Rightarrow> ('k \<times> 'v) list \<Rightarrow> ('k \<times> 'v) list" where
  "map_delete k es = filter (\<lambda>e. fst e \<noteq> k) es"

definition addMapping ::
  "int \<Rightarrow> string \<Rightarrow> string \<Rightarrow> string \<Rightarrow> string option \<Rightarrow> conversationMappings \<Rightarrow>
   conversationMappings" where
  "addMapping now threadId conversationId walletAddress agentId conversationMappings =
     map_set threadId
       \<lparr>cm_threadId = threadId, cm_conversationId = conversationId,
        cm_walletAddress = walletAddress, cm_lastActivity = now, cm_agentId = agentId\<rparr>
       conversationMappings"

definition getMapping :: "string \<Rightarrow> conversationMappings \<Rightarrow> conversation_mapping option" where
  "getMapping threadId conversationMappings = map_of conversationMappings threadId"

text \<open>
  The loop of \<^verbatim>\<open>cleanupOldMappings\<close> over the entries of the map, deleting from the
  map as it goes and counting. The hours are an integer here.
\<close>

fun cleanup_loop ::
  "int \<Rightarrow> int \<Rightarrow> (string \<times> conversation_mapping) list \<Rightarrow> conversationMappings \<times> nat \<Rightarrow>
   conversationMappings \<times> nat" where
  "cleanup_loop now maxAge [] (m, cleaned) = (m, cleaned)"
| "cleanup_loop now maxAge ((threadId, mapping) # rest) (m, cleaned) =
     (let age = now - cm_lastActivity mapping
      in if age > maxAge
         then cleanup_loop now maxAge rest (map_delete threadId m, cleaned + 1)
         else cleanup_loop now maxAge rest (m, cleaned))"

definition cleanupOldMappings ::
  "int \<Rightarrow> int option \<Rightarrow> conversationMappings \<Rightarrow> conversationMappings \<times> nat" where
  "cleanupOldMappings now maxAgeHours conversationMappings =
     (let hours = (case maxAgeHours of None \<Rightarrow> 24 | Some h \<Rightarrow> h);
          maxAge = hours * 60 * 60 * 1000
      in cleanup_loop now maxAge conversationMappings (conversationMappings, 0))"

text \<open>
  The messaging client, as far as the reply boundary uses it. A conversation object is
  its identifier; \<^verbatim>\<open>getConversationById\<close> throws, finds nothing, or returns a
  conversation; \<^verbatim>\<open>send\<close> on a conversation throws or succeeds.
\<close>

record xmtp_client =
  getConversationById :: "string \<Rightarrow> js_error + string option"
  conversation_send :: "string \<Rightarrow> string \<Rightarrow> js_error + unit"

record reply_request =
  rq_threadId :: "string option"
  rq_conversationId :: "string option"
  rq_message :: string

record reply_response =
  rs_success :: bool
  rs_error :: "string option"
  rs_conversationId :: "string option"

text \<open>An optional string that is truthy: defined and not empty.\<close>

definition truthy :: "string option \<Rightarrow> string option" where
  "truthy s = (case s of None \<Rightarrow> None | Some v \<Rightarrow> if v = [] then None else Some v)"

text \<open>
  The lookup of \<^verbatim>\<open>sendReply\<close>: the conversation identifier of the request first,
  then the mapping of its thread identifier, whose \<^verbatim>\<open>lastActivity\<close> is refreshed when
  the mapped conversation is found.
\<close>

definition resolve_conversation ::
  "int \<Rightarrow> xmtp_client \<Rightarrow> conversationMappings \<Rightarrow> reply_request \<Rightarrow>
   string option \<times> conversationMappings" where
  "resolve_conversation now client conversationMappings request =
     (let conversation =
            (case truthy (rq_conversationId request) of
               None \<Rightarrow> None
             | Some cid \<Rightarrow>
                 (case getConversationById client cid of
                    Inl error \<Rightarrow> None
                  | Inr found \<Rightarrow> found))
      in if conversation = None then
           (case truthy (rq_threadId request) of
              None \<Rightarrow> (None, conversationMappings)
            | Some threadId \<Rightarrow>
                (case map_of conversationMappings threadId of
                   None \<Rightarrow> (None, conversationMappings)
                 | Some mapping \<Rightarrow>
                     (case getConversationById client (cm_conversationId mapping) of
                        Inl error \<Rightarrow> (None, conversationMappings)
                      | Inr None \<Rightarrow> (None, conversationMappings)
                      | Inr (Some c) \<Rightarrow>
                          (Some c, map_set threadId (mapping\<lparr>cm_lastActivity := now\<rparr>)
                                     conversationMappings))))
         else (conversation, conversationMappings))"

text \<open>
  \<^verbatim>\<open>sendReply\<close> returns the response, the store, and the messages that went out, each
  with the conversation it went to.
\<close>

record reply_result =
  rr_response :: reply_response
  rr_mappings :: conversationMappings
  rr_sent :: "(string \<times> string) list"

definition sendReply ::
  "int \<Rightarrow> xmtp_client option \<Rightarrow> conversationMappings \<Rightarrow> reply_request \<Rightarrow> reply_result" where
  "sendReply now client conversationMappings request =
     (case client of
        None \<Rightarrow>
          \<lparr>rr_response = \<lparr>rs_success = False, rs_error = Some ''XMTP client not available'',
                          rs_conversationId = None\<rparr>,
           rr_mappings = conversationMappings, rr_sent = []\<rparr>
      | Some cl \<Rightarrow>
          (case resolve_conversation now cl conversationMappings request of
             (None, mappings') \<Rightarrow>
               \<lparr>rr_response = \<lparr>rs_success = False, rs_error = Some ''Conversation not found'',
                               rs_conversationId = None\<rparr>,
                rr_mappings = mappings', rr_sent = []\<rparr>
           | (Some conversation, mappings') \<Rightarrow>
               (case conversation_send cl conversation (rq_message request) of
                  Inl (Error errorMessage) \<Rightarrow>
                    \<lparr>rr_response = \<lparr>rs_success = False, rs_error = Some errorMessage,
                                    rs_conversationId = None\<rparr>,
                     rr_mappings = mappings', rr_sent = []\<rparr>
                | Inr u \<Rightarrow>
                    \<lparr>rr_response = \<lparr>rs_success = True, rs_error = None,
                                    rs_conversationId = Some conversation\<rparr>,
                     rr_mappings = mappings',
                     rr_sent = [(conversation, rq_message request)]\<rparr>)))"

text \<open>
  The route \<^verbatim>\<open>POST /reply\<close>: the parsed body (or the throw of parsing it), the
  validation, the call of \<^verbatim>\<open>sendReply\<close>, and the status code of the answer.
\<close>

record reply_body =
  b_threadId :: "string option"
  b_conversationId :: "string option"
  b_message :: "string option"

record http_reply =
  h_status :: nat
  h_json :: reply_response
  h_mappings :: conversationMappings
  h_sent :: "(string \<times> string) list"

definition bad_request :: "conversationMappings \<Rightarrow> http_reply" where
  "bad_request conversationMappings =
     \<lparr>h_status = 400,
      h_json = \<lparr>rs_success = False,
                rs_error = Some ''message and either threadId or conversationId are required'',
                rs_conversationId = None\<rparr>,
      h_mappings = conversationMappings, h_sent = []\<rparr>"

definition post_reply ::
  "int \<Rightarrow> xmtp_client option \<Rightarrow> conversationMappings \<Rightarrow> js_error + reply_body \<Rightarrow> http_reply" where
  "post_reply now client conversationMappings parsed =
     (case parsed of
        Inl error \<Rightarrow>
          \<lparr>h_status = 500,
           h_json = \<lparr>rs_success = False, rs_error = Some ''Internal server error'',
                     rs_conversationId = None\<rparr>,
           h_mappings = conversationMappings, h_sent = []\<rparr>
      | Inr body \<Rightarrow>
          (case truthy (b_message body) of
             Some message
               \<Rightarrow> if \<not> (truthy (b_threadId body) = None \<and> truthy (b_conversationId body) = None)
                 then
                   (let result = sendReply now client conversationMappings
                                   \<lparr>rq_threadId = b_threadId body,
                                    rq_conversationId = b_conversationId body,
                                    rq_message = message\<rparr>
                    in \<lparr>h_status = (if rs_success (rr_response result) then 200 else 500),
                        h_json = rr_response result,
                        h_mappings = rr_mappings result, h_sent = rr_sent result\<rparr>)
                 else bad_request conversationMappings
           | None \<Rightarrow> bad_request conversationMappings))"

section \<open>The coalescing scheduler (\<^verbatim>\<open>addMessageToBatch\<close>)\<close>

datatype message_type = TextKind | ImageKind

record batch_message =
  bm_id :: string
  bm_type :: message_type
  bm_content :: string
  bm_timestamp :: nat

definition MESSAGE_BATCH_DELAY :: nat where
  "MESSAGE_BATCH_DELAY = 1000"

text \<open>The separator of the combined text: two newlines.\<close>

definition NN :: string where
  "NN = [CHR 0x0A, CHR 0x0A]"

text \<open>
  The two callbacks that the handlers pass as \<^verbatim>\<open>processFn\<close>: the one of the text
  handler and the one of the attachment handler. Each builds the combined text
  \<^verbatim>\<open>finalMessage\<close> from the batch; they differ when the joined text is empty.
\<close>

datatype process_fn = TextFlush | AttachmentFlush

definition text_finalMessage :: "batch_message list \<Rightarrow> string" where
  "text_finalMessage messages =
     (let textMessages = filter (\<lambda>m. bm_type m = TextKind) messages;
          imageMessages = filter (\<lambda>m. bm_type m = ImageKind) messages;
          finalMessage = join NN (map bm_content textMessages)
      in if length imageMessages > 0
         then finalMessage @ NN @ join NN (map bm_content imageMessages)
         else finalMessage)"

definition attachment_finalMessage :: "batch_message list \<Rightarrow> string" where
  "attachment_finalMessage messages =
     (let textMessages = filter (\<lambda>m. bm_type m = TextKind) messages;
          imageMessages = filter (\<lambda>m. bm_type m = ImageKind) messages;
          finalMessage = join NN (map bm_content textMessages)
      in if length imageMessages > 0
         then (if finalMessage \<noteq> []
               then finalMessage @ NN @ join NN (map bm_content imageMessages)
               else join NN (map bm_content imageMessages))
         else finalMessage)"

definition finalMessage_of :: "process_fn \<Rightarrow> batch_message list \<Rightarrow> string" where
  "finalMessage_of processFn messages =
     (case processFn of
        TextFlush \<Rightarrow> text_finalMessage messages
      | AttachmentFlush \<Rightarrow> attachment_finalMessage messages)"

text \<open>
  The state of the scheduler and of the part of the runtime it relies on.
  \<^item> \<open>clock\<close> is \<^verbatim>\<open>Date.now()\<close>, in milliseconds.
  \<^item> A message array is an object on the heap: \<open>arrays\<close> maps a reference to the
    array's content, and \<open>nextRef\<close> is the next unused reference. A pending batch and the
    closure of its timer share one array by reference.
  \<^item> \<open>timers\<close> are the live timers of \<^verbatim>\<open>setTimeout\<close>, oldest first; each holds its
    handle, the time it is due, and what its closure has captured: the batch key, the
    array and the callback. \<^verbatim>\<open>clearTimeout\<close> removes the timer with the given handle.
  \<^item> \<open>flushed\<close> records each call of \<^verbatim>\<open>processFn\<close>: the batch key, the time of the
    call, the messages handed over and the combined text built from them.
\<close>

record timer =
  t_handle :: nat
  t_fireAt :: nat
  t_batchKey :: string
  t_messages :: nat
  t_processFn :: process_fn

record pending_message =
  pm_conversationId :: string
  pm_senderAddress :: string
  pm_messages :: nat
  pm_timeout :: nat

record flush =
  f_batchKey :: string
  f_firedAt :: nat
  f_messages :: "batch_message list"
  f_finalMessage :: string

record scheduler =
  clock :: nat
  nextHandle :: nat
  nextRef :: nat
  timers :: "timer list"
  arrays :: "nat \<Rightarrow> batch_message list"
  pendingMessages :: "string \<rightharpoonup> pending_message"
  flushed :: "flush list"

definition initial_scheduler :: scheduler where
  "initial_scheduler =
     \<lparr>clock = 0, nextHandle = 0, nextRef = 0, timers = [], arrays = (\<lambda>r. []),
      pendingMessages = Map.empty, flushed = []\<rparr>"

definition batchKey_of :: "string \<Rightarrow> string \<Rightarrow> string" where
  "batchKey_of conversationId senderAddress = conversationId @ ''-'' @ senderAddress"

definition clearTimeout :: "nat \<Rightarrow> timer list \<Rightarrow> timer list" where
  "clearTimeout handle ts = filter (\<lambda>t. t_handle t \<noteq> handle) ts"

definition addMessageToBatch ::
  "string \<Rightarrow> string \<Rightarrow> string \<Rightarrow> message_type \<Rightarrow> string \<Rightarrow> process_fn \<Rightarrow>
   scheduler \<Rightarrow> scheduler" where
  "addMessageToBatch conversationId senderAddress messageId messageType content processFn st =
     (let batchKey = batchKey_of conversationId senderAddress;
          existing = pendingMessages st batchKey;
          timers1 = (case existing of
                       None \<Rightarrow> timers st
                     | Some e \<Rightarrow> clearTimeout (pm_timeout e) (timers st));
          messages = (case existing of None \<Rightarrow> nextRef st | Some e \<Rightarrow> pm_messages e);
          arrays1 = (case existing of
                       None \<Rightarrow> (arrays st)(nextRef st := [])
                     | Some e \<Rightarrow> arrays st);
          nextRef1 = (case existing of None \<Rightarrow> nextRef st + 1 | Some e \<Rightarrow> nextRef st);
          arrays2 = arrays1(messages := arrays1 messages @
                      [\<lparr>bm_id = messageId, bm_type = messageType, bm_content = content,
                        bm_timestamp = clock st\<rparr>]);
          timeout = nextHandle st;
          timer = \<lparr>t_handle = timeout, t_fireAt = clock st + MESSAGE_BATCH_DELAY,
                   t_batchKey = batchKey, t_messages = messages, t_processFn = processFn\<rparr>
      in st\<lparr>nextHandle := timeout + 1,
            nextRef := nextRef1,
            timers := timers1 @ [timer],
            arrays := arrays2,
            pendingMessages := (pendingMessages st)(batchKey \<mapsto>
               \<lparr>pm_conversationId = conversationId, pm_senderAddress = senderAddress,
                pm_messages = messages, pm_timeout = timeout\<rparr>)\<rparr>)"

text \<open>
  The callback of a timer: delete the pending batch of the key, then call
  \<^verbatim>\<open>processFn\<close> on the array.
\<close>

definition fire_timer :: "timer \<Rightarrow> scheduler \<Rightarrow> scheduler" where
  "fire_timer t st =
     st\<lparr>pendingMessages := (pendingMessages st)(t_batchKey t := None),
        flushed := flushed st @
          [\<lparr>f_batchKey = t_batchKey t, f_firedAt = clock st,
            f_messages = arrays st (t_messages t),
            f_finalMessage = finalMessage_of (t_processFn t) (arrays st (t_messages t))\<rparr>]\<rparr>"

text \<open>
  Time passes until \<open>now\<close> (the clock never runs backwards): the timers that are due by
  then leave the timer table and run, oldest first; a timer never runs before it is due.
\<close>

definition advance :: "nat \<Rightarrow> scheduler \<Rightarrow> scheduler" where
  "advance now st =
     (let now' = max now (clock st);
          due = filter (\<lambda>t. t_fireAt t \<le> now') (timers st);
          rest = filter (\<lambda>t. \<not> t_fireAt t \<le> now') (timers st)
      in fold fire_timer due (st\<lparr>clock := now', timers := rest\<rparr>))"

text \<open>
  What happens to the scheduler: a handler adds a fragment at some time, or time passes.
\<close>

datatype event
  = Add nat string string string message_type string process_fn
  | Tick nat

fun step :: "event \<Rightarrow> scheduler \<Rightarrow> scheduler" where
  "step (Add now conversationId senderAddress messageId messageType content processFn) st =
     addMessageToBatch conversationId senderAddress messageId messageType content processFn
       (advance now st)"
| "step (Tick now) st = advance now st"

definition run :: "event list \<Rightarrow> scheduler \<Rightarrow> scheduler" where
  "run evs st = fold step evs st"

text \<open>
  The call sites: the text handler adds a \<^verbatim>\<open>"text"\<close> fragment with its callback, the
  attachment handler an \<^verbatim>\<open>"image"\<close> fragment with its own.
\<close>

definition handler_processFn :: "message_type \<Rightarrow> process_fn" where
  "handler_processFn messageType = (case messageType of TextKind \<Rightarrow> TextFlush | ImageKind \<Rightarrow> AttachmentFlush)"

text \<open>
  A fragment of one sender in one conversation: when it arrives, its message
  identifier, its kind and its content.
\<close>

record fragment =
  fr_at :: nat
  fr_id :: string
  fr_type :: message_type
  fr_content :: string

definition fragment_event :: "string \<Rightarrow> string \<Rightarrow> fragment \<Rightarrow> event" where
  "fragment_event conversationId senderAddress fr =
     Add (fr_at fr) conversationId senderAddress (fr_id fr) (fr_type fr) (fr_content fr)
       (handler_processFn (fr_type fr))"

definition fragment_message :: "fragment \<Rightarrow> batch_message" where
  "fragment_message fr =
     \<lparr>bm_id = fr_id fr, bm_type = fr_type fr, bm_content = fr_content fr,
      bm_timestamp = fr_at fr\<rparr>"

text \<open>
  The fragments arrive within the quiet period: each one not before, and less than the
  batch delay after, the one before it.
\<close>

fun within_quiet_period :: "nat \<Rightarrow> fragment list \<Rightarrow> bool" where
  "within_quiet_period prev [] = True"
| "within_quiet_period prev (fr # frs) =
     (prev \<le> fr_at fr \<and> fr_at fr < prev + MESSAGE_BATCH_DELAY \<and> within_quiet_period (fr_at fr) frs)"

definition flushes_of :: "string \<Rightarrow> scheduler \<Rightarrow> flush list" where
  "flushes_of batchKey st = filter (\<lambda>f. f_batchKey f = batchKey) (flushed st)"

definition timers_of :: "string \<Rightarrow> scheduler \<Rightarrow> timer list" where
  "timers_of batchKey st = filter (\<lambda>t. t_batchKey t = batchKey) (timers st)"

text \<open>
  The combined text in the words of the specification: the text fragments joined by
  double newlines, followed, when there are image fragments, by a double newline and the
  image fragments joined by double newlines.
\<close>

definition spec_combined :: "batch_message list \<Rightarrow> string" where
  "spec_combined messages =
     join NN (map bm_content (filter (\<lambda>m. bm_type m = TextKind) messages))
     @ (if filter (\<lambda>m. bm_type m = ImageKind) messages \<noteq> []
        then NN @ join NN (map bm_content (filter (\<lambda>m. bm_type m = ImageKind) messages))
        else [])"

text \<open>
  The invariant of the scheduler. Every live timer belongs to the pending batch of its
  key, which holds its handle and shares its array; every pending batch has a live timer;
  no two live timers have the same key or the same handle; handles and references in use
  are below the counters; no two pending batches share an array; the array of a live
  timer is not empty, and the timer is due one batch delay after the last fragment of the
  array was added, which is later than now; every flush so far handed over a non-empty
  array, not earlier than one batch delay after its last fragment was added.
\<close>

definition sched_inv :: "scheduler \<Rightarrow> bool" where
  "sched_inv st \<longleftrightarrow>
     (\<forall>t \<in> set (timers st). \<exists>p. pendingMessages st (t_batchKey t) = Some p
          \<and> pm_timeout p = t_handle t \<and> pm_messages p = t_messages t)
   \<and> (\<forall>k p. pendingMessages st k = Some p \<longrightarrow> (\<exists>t \<in> set (timers st). t_batchKey t = k))
   \<and> distinct (map t_batchKey (timers st))
   \<and> distinct (map t_handle (timers st))
   \<and> (\<forall>t \<in> set (timers st). t_handle t < nextHandle st)
   \<and> (\<forall>k p. pendingMessages st k = Some p \<longrightarrow> pm_messages p < nextRef st)
   \<and> (\<forall>k k' p p'. pendingMessages st k = Some p \<and> pendingMessages st k' = Some p'
          \<and> pm_messages p = pm_messages p' \<longrightarrow> k = k')
   \<and> (\<forall>t \<in> set (timers st). arrays st (t_messages t) \<noteq> []
          \<and> t_fireAt t = bm_timestamp (last (arrays st (t_messages t))) + MESSAGE_BATCH_DELAY
          \<and> clock st < t_fireAt t)
   \<and> (\<forall>f \<in> set (flushed st). f_messages f \<noteq> []
          \<and> bm_timestamp (last (f_messages f)) + MESSAGE_BATCH_DELAY \<le> f_firedAt f)"

text \<open>
  The key has a pending batch with the messages \<open>msgs\<close>, and its one live timer is due
  at \<open>due\<close> and will call \<open>processFn\<close>.
\<close>

definition has_batch ::
  "string \<Rightarrow> batch_message list \<Rightarrow> nat \<Rightarrow> process_fn \<Rightarrow> scheduler \<Rightarrow> bool" where
  "has_batch k msgs due processFn st \<longleftrightarrow>
     (\<exists>p t. pendingMessages st k = Some p \<and> timers_of k st = [t]
        \<and> arrays st (pm_messages p) = msgs \<and> t_messages t = pm_messages p
        \<and> t_fireAt t = due \<and> t_processFn t = processFn)"

section \<open>Lemmas: staleness detector\<close>

lemma fingerprint_mset:
  "mset (map m_id ms) = mset (map m_id ms') \<Longrightarrow> fingerprint ms = fingerprint ms'"
proof -
  assume eq: "mset (map m_id ms) = mset (map m_id ms')"
  have "sort (map m_id ms) = sort (map m_id ms')"
    using eq by (intro properties_for_sort) simp_all
  then show ?thesis
    by (simp add: fingerprint_def sortedMessageIds_def)
qed

lemma check_first:
  "tbl c = None \<Longrightarrow>
   checkMessageArray c ms tbl =
     (False, tbl(c \<mapsto> \<lparr>hash = fingerprint ms, repeatCount = 1,
                         lastMessageIds = sortedMessageIds ms\<rparr>))"
  by (simp add: checkMessageArray_def fingerprint_def Let_def)

lemma check_same:
  "tbl c = Some r \<Longrightarrow> hash r = fingerprint ms \<Longrightarrow>
   checkMessageArray c ms tbl =
     (3 \<le> repeatCount r + 1, tbl(c \<mapsto> r\<lparr>repeatCount := repeatCount r + 1\<rparr>))"
  by (simp add: checkMessageArray_def fingerprint_def Let_def REPEAT_THRESHOLD_def)

lemma check_differs:
  "tbl c = Some r \<Longrightarrow> hash r \<noteq> fingerprint ms \<Longrightarrow>
   checkMessageArray c ms tbl =
     (False, tbl(c \<mapsto> r\<lparr>hash := fingerprint ms, repeatCount := 1,
                          lastMessageIds := sortedMessageIds ms\<rparr>))"
  by (simp add: checkMessageArray_def fingerprint_def Let_def)

text \<open>
  Once a record with count \<open>n\<close> is stored, every further observation with the same
  fingerprint counts one up and answers whether the count has reached three.
\<close>

lemma observations_same:
  "tbl c = Some r \<Longrightarrow> \<forall>ms \<in> set mss. fingerprint ms = hash r \<Longrightarrow>
   observations c mss tbl = map (\<lambda>i. 3 \<le> repeatCount r + 1 + i) [0..<length mss]"
proof (induction mss arbitrary: tbl r)
  case Nil
  then show ?case by simp
next
  case (Cons ms mss)
  let ?r' = "r\<lparr>repeatCount := repeatCount r + 1\<rparr>"
  let ?tbl' = "tbl(c \<mapsto> ?r')"
  have step: "checkMessageArray c ms tbl = (3 \<le> repeatCount r + 1, ?tbl')"
    using Cons.prems by (simp add: check_same)
  have "observations c mss ?tbl' = map (\<lambda>i. 3 \<le> repeatCount ?r' + 1 + i) [0..<length mss]"
    using Cons.prems by (intro Cons.IH) simp_all
  then have tl: "observations c mss ?tbl' = map (\<lambda>i. 3 \<le> repeatCount r + 1 + Suc i) [0..<length mss]"
    by simp
  show ?case
    using step tl by (simp add: map_upt_Suc del: upt_Suc)
qed

lemma observations_Cons:
  "checkMessageArray c ms tbl = (r, tbl') \<Longrightarrow>
   observations c (ms # mss) tbl = r # observations c mss tbl'"
  by simp

lemma observations_identical: "observations c (ms # mss) tbl = map (\<lambda>i. 2 \<le> i) [0..<Suc (length mss)]"
    if none: "tbl c = None" and all: "\<forall>m \<in> set mss. mset (map m_id m) = mset (map m_id ms)"
  proof -
  let ?r = "\<lparr>hash = fingerprint ms, repeatCount = 1, lastMessageIds = sortedMessageIds ms\<rparr>"
    have same: "\<forall>m \<in> set mss. fingerprint m = hash ?r"
    proof
      fix m assume "m \<in> set mss"
      with all have "mset (map m_id m) = mset (map m_id ms)" by blast
      then have "fingerprint m = fingerprint ms" by (rule fingerprint_mset)
      then show "fingerprint m = hash ?r" by simp
    qed
    have stored: "(tbl(c \<mapsto> ?r)) c = Some ?r"
      by simp
    have "observations c mss (tbl(c \<mapsto> ?r)) =
            map (\<lambda>i. 3 \<le> repeatCount ?r + 1 + i) [0..<length mss]"
      using stored same by (rule observations_same)
    then have tl: "observations c mss (tbl(c \<mapsto> ?r)) = map (\<lambda>i. 2 \<le> Suc i) [0..<length mss]"
      by simp
    have hd: "checkMessageArray c ms tbl = (False, tbl(c \<mapsto> ?r))"
      using none by (rule check_first)
    have "observations c (ms # mss) tbl = False # observations c mss (tbl(c \<mapsto> ?r))"
      by (simp only: observations.simps hd prod.case)
    also have "\<dots> = map (\<lambda>i. 2 \<le> i) [0..<Suc (length mss)]"
      unfolding tl map_upt_Suc by simp
    finally show ?thesis .
  qed

lemma observations_third_differs: "observations c [ms, ms', ms3] tbl = [False, False, False]"
    if none: "tbl c = None" and eq: "mset (map m_id ms') = mset (map m_id ms)"
      and ne: "fingerprint ms3 \<noteq> fingerprint ms"
proof -
  let ?r = "\<lparr>hash = fingerprint ms, repeatCount = 1, lastMessageIds = sortedMessageIds ms\<rparr>"
  let ?r2 = "\<lparr>hash = fingerprint ms, repeatCount = 2, lastMessageIds = sortedMessageIds ms\<rparr>"
  have "fingerprint ms' = fingerprint ms"
    using eq by (rule fingerprint_mset)
  then have fp: "hash ?r = fingerprint ms'"
    by simp
  have s1: "checkMessageArray c ms tbl = (False, tbl(c \<mapsto> ?r))"
    using none by (rule check_first)
  have st1: "(tbl(c \<mapsto> ?r)) c = Some ?r"
    by simp
  have s2: "checkMessageArray c ms' (tbl(c \<mapsto> ?r)) = (False, tbl(c \<mapsto> ?r2))"
    using check_same [of "tbl(c \<mapsto> ?r)" c ?r ms', OF st1 fp] by (simp add: numeral_2_eq_2)
  have ne2: "hash ?r2 \<noteq> fingerprint ms3"
    using ne by simp
  have st2: "(tbl(c \<mapsto> ?r2)) c = Some ?r2"
    by simp
  have s3: "fst (checkMessageArray c ms3 (tbl(c \<mapsto> ?r2))) = False"
    using check_differs [of "tbl(c \<mapsto> ?r2)" c ?r2 ms3, OF st2 ne2] by simp
  obtain tbl3 where s3': "checkMessageArray c ms3 (tbl(c \<mapsto> ?r2)) = (False, tbl3)"
    using s3 by (cases "checkMessageArray c ms3 (tbl(c \<mapsto> ?r2))") simp
  have "observations c [ms, ms', ms3] tbl = False # observations c [ms', ms3] (tbl(c \<mapsto> ?r))"
    using s1 by (rule observations_Cons)
  also have "observations c [ms', ms3] (tbl(c \<mapsto> ?r)) =
               False # observations c [ms3] (tbl(c \<mapsto> ?r2))"
    using s2 by (rule observations_Cons)
  also have "observations c [ms3] (tbl(c \<mapsto> ?r2)) = False # observations c [] tbl3"
    using s3' by (rule observations_Cons)
  finally show ?thesis
    by simp
qed

text \<open>
  Joining with a separator character is injective on lists of non-empty strings that do
  not contain the separator.
\<close>

lemma join_Cons:
  "join sep (x # xs) = x @ (if xs = [] then [] else sep @ join sep xs)"
  by (cases xs) simp_all

lemma takeWhile_before_separator:
  assumes "c \<notin> set x" and "r = [] \<or> hd r = c"
  shows "takeWhile (\<lambda>a. a \<noteq> c) (x @ r) = x"
proof -
  have "takeWhile (\<lambda>a. a \<noteq> c) r = []"
    using assms(2) by (cases r) auto
  moreover have "\<forall>a \<in> set x. a \<noteq> c"
    using assms(1) by auto
  ultimately show ?thesis
    by (simp add: takeWhile_append2)
qed

lemma join_separator_inj:
  assumes "\<forall>x \<in> set xs. x \<noteq> [] \<and> c \<notin> set x"
    and "\<forall>y \<in> set ys. y \<noteq> [] \<and> c \<notin> set y"
    and "join [c] xs = join [c] ys"
  shows "xs = ys"
  using assms
proof (induction xs arbitrary: ys)
  case Nil
  show ?case
  proof (cases ys)
    case Nil
    then show ?thesis by simp
  next
    case (Cons y ys')
    then have "join [c] ys \<noteq> []"
      using Nil.prems(2) by (simp add: join_Cons)
    then show ?thesis
      using Nil.prems(3) by simp
  qed
next
  case (Cons x xs)
  have x: "x \<noteq> []" "c \<notin> set x"
    using Cons.prems(1) by simp_all
  show ?case
  proof (cases ys)
    case Nil
    then show ?thesis
      using Cons.prems(3) x by (simp add: join_Cons)
  next
    case ys: (Cons y ys')
    have y: "y \<noteq> []" "c \<notin> set y"
      using Cons.prems(2) ys by simp_all
    let ?rx = "if xs = [] then [] else [c] @ join [c] xs"
    let ?ry = "if ys' = [] then [] else [c] @ join [c] ys'"
    have eq: "x @ ?rx = y @ ?ry"
      using Cons.prems(3) unfolding ys join_Cons .
    have "takeWhile (\<lambda>a. a \<noteq> c) (x @ ?rx) = x"
      by (rule takeWhile_before_separator) (use x in simp_all)
    moreover have "takeWhile (\<lambda>a. a \<noteq> c) (y @ ?ry) = y"
      by (rule takeWhile_before_separator) (use y in simp_all)
    ultimately have xy: "x = y"
      using eq by simp
    then have r: "?rx = ?ry"
      using eq by simp
    have nonempty: "join [c] zs \<noteq> []" if "zs \<noteq> []" "\<forall>z \<in> set zs. z \<noteq> [] \<and> c \<notin> set z" for zs
      using that by (cases zs) (simp_all add: join_Cons)
    have "xs = ys'"
    proof (cases "xs = []")
      case True
      then have "ys' = []"
        using r by (auto split: if_splits)
      then show ?thesis
        using True by simp
    next
      case False
      then have "ys' \<noteq> []"
        using r by (auto split: if_splits)
      then have "join [c] xs = join [c] ys'"
        using r False by simp
      then show ?thesis
        using Cons.IH [of ys'] Cons.prems(1,2) ys by simp
    qed
    then show ?thesis
      using xy ys by simp
  qed
qed

lemma fingerprint_inj:
  assumes "\<forall>m \<in> set ms \<union> set ms'. m_id m \<noteq> [] \<and> CHR ''|'' \<notin> set (m_id m)"
    and "fingerprint ms = fingerprint ms'"
  shows "mset (map m_id ms) = mset (map m_id ms')"
proof -
  have a: "\<forall>x \<in> set (sort (map m_id ms)). x \<noteq> [] \<and> CHR ''|'' \<notin> set x"
    using assms(1) by auto
  have b: "\<forall>x \<in> set (sort (map m_id ms')). x \<noteq> [] \<and> CHR ''|'' \<notin> set x"
    using assms(1) by auto
  have "join [CHR ''|''] (sort (map m_id ms)) = join [CHR ''|''] (sort (map m_id ms'))"
    using assms(2) by (simp add: fingerprint_def sortedMessageIds_def)
  then have "sort (map m_id ms) = sort (map m_id ms')"
    using a b by (intro join_separator_inj)
  then have "mset (sort (map m_id ms)) = mset (sort (map m_id ms'))"
    by simp
  then show ?thesis
    by simp
qed

section \<open>Lemmas: backend collaborator\<close>

lemma processMessage_try_post:
  "processMessage_try svc url post message sender cid agentId =
     (case post (request_url svc agentId) (request_body url message sender cid) of
        AxiosError e \<Rightarrow> Inl (Error e)
      | AxiosResponse response \<Rightarrow>
          if \<not> r_success response then
            Inl (Error (or_else (r_error response) ''Backend returned unsuccessful response''))
          else Inr (strip_bold (or_else (map_option d_response (r_data response))
                                  ''Response received'')))"
  by (simp add: processMessage_try_def request_url_def request_body_def Let_def
           split: axios_result.splits)

lemma processMessage_failed:
  "backend_failed (post (request_url svc agentId) (request_body url message sender cid)) \<Longrightarrow>
   processMessage svc url post message sender cid agentId = Inr TECHNICAL_DIFFICULTIES"
  by (simp add: processMessage_def processMessage_try_post backend_failed_def
           split: axios_result.splits)

lemma processMessage_ok:
  "post (request_url svc agentId) (request_body url message sender cid) = AxiosResponse response \<Longrightarrow>
   r_success response \<Longrightarrow>
   processMessage svc url post message sender cid agentId =
     Inr (strip_bold (or_else (map_option d_response (r_data response)) ''Response received''))"
  by (simp add: processMessage_def processMessage_try_post)

lemma processMessage_returns:
  "\<exists>text. processMessage svc url post message sender cid agentId = Inr text"
  by (simp add: processMessage_def split: sum.splits)

section \<open>Lemmas: deduplication ledger\<close>

lemma fold_set_add_distinct:
  "distinct (s @ xs) \<Longrightarrow> fold set_add xs s = s @ xs"
proof (induction xs arbitrary: s)
  case Nil
  then show ?case by simp
next
  case (Cons x xs)
  have "set_add x s = s @ [x]"
    using Cons.prems by (simp add: set_add_def)
  moreover have "distinct ((s @ [x]) @ xs)"
    using Cons.prems by simp
  ultimately show ?case
    using Cons.IH [of "s @ [x]"] by simp
qed

lemma reply_marks_distinct:
  "distinct (s @ ids) \<Longrightarrow> reply_marks ids s = s @ ids"
proof (induction ids arbitrary: s)
  case Nil
  then show ?case by (simp add: reply_marks_def)
next
  case (Cons i ids)
  have step: "snd (reply_dedup i s) = s @ [i]"
    using Cons.prems by (simp add: reply_dedup_def set_add_def)
  have "distinct ((s @ [i]) @ ids)"
    using Cons.prems by simp
  then have "reply_marks ids (s @ [i]) = (s @ [i]) @ ids"
    by (rule Cons.IH)
  then show ?case
    using step by (simp add: reply_marks_def)
qed

lemma text_marks_below_mark:
  "distinct (s @ ids) \<Longrightarrow> length (s @ ids) \<le> 1000 \<Longrightarrow> text_marks ids s = s @ ids"
proof (induction ids arbitrary: s)
  case Nil
  then show ?case by (simp add: text_marks_def)
next
  case (Cons i ids)
  have step: "snd (text_dedup i s) = s @ [i]"
    using Cons.prems by (simp add: text_dedup_def set_add_def prune_def)
  have "text_marks ids (s @ [i]) = (s @ [i]) @ ids"
    using Cons.prems by (intro Cons.IH) simp_all
  then show ?case
    using step by (simp add: text_marks_def)
qed

lemma text_dedup_prunes:
  assumes "distinct (s @ [i])" and "length s = 1000"
  shows "snd (text_dedup i s) = slice_last 500 (s @ [i])"
proof -
  have "distinct (slice_last 500 (s @ [i]))"
    using assms(1) unfolding slice_last_def by (rule distinct_drop)
  then have "fold set_add (slice_last 500 (s @ [i])) [] = slice_last 500 (s @ [i])"
    using fold_set_add_distinct [of "[]" "slice_last 500 (s @ [i])"] by simp
  then show ?thesis
    using assms by (simp add: text_dedup_def set_add_def prune_def)
qed

text \<open>Identifiers for a run of \<open>n\<close> different messages.\<close>

lemma distinct_ids: "distinct (map (\<lambda>n. replicate n (CHR ''m'')) [0..<k])"
proof -
  have "inj_on (\<lambda>n. replicate n (CHR ''m'')) (set [0..<k])"
    by (rule inj_onI) (metis length_replicate)
  then show ?thesis
    by (simp add: distinct_map)
qed

section \<open>Lemmas: conversation mapping store\<close>

lemma map_of_map_set: "map_of (map_set k v es) = (map_of es)(k \<mapsto> v)"
  by (induction es) (auto simp: fun_eq_iff)

lemma keys_map_set:
  "map fst (map_set k v es) = (if k \<in> set (map fst es) then map fst es else map fst es @ [k])"
  by (induction es) auto

lemma distinct_map_set:
  "distinct (map fst es) \<Longrightarrow> distinct (map fst (map_set k v es))"
  by (simp add: keys_map_set)

lemma filter_key_absent:
  "k \<notin> set (map fst es) \<Longrightarrow> filter (\<lambda>e. fst e = k) es = []"
  by (induction es) auto

lemma entries_of_key_map_set:
  "distinct (map fst es) \<Longrightarrow> filter (\<lambda>e. fst e = k) (map_set k v es) = [(k, v)]"
proof (induction es)
  case Nil
  then show ?case by simp
next
  case (Cons e es)
  show ?case
  proof (cases "fst e = k")
    case True
    then have "k \<notin> set (map fst es)"
      using Cons.prems by auto
    then have "filter (\<lambda>e. fst e = k) es = []"
      by (rule filter_key_absent)
    then show ?thesis
      using True by simp
  next
    case False
    then show ?thesis
      using Cons by simp
  qed
qed

text \<open>
  The clean-up loop, started on the entries \<open>es\<close> with the map \<open>m\<close> and the count
  \<open>c\<close>: it deletes the keys of the stale entries of \<open>es\<close> and counts these entries.
\<close>

lemma cleanup_loop_eq:
  "cleanup_loop now maxAge es (m, c) =
     (filter (\<lambda>e. fst e \<notin> fst ` {x \<in> set es. now - cm_lastActivity (snd x) > maxAge}) m,
      c + length (filter (\<lambda>x. now - cm_lastActivity (snd x) > maxAge) es))"
proof (induction es arbitrary: m c)
  case Nil
  then show ?case by simp
next
  case (Cons x es)
  obtain threadId mapping where x: "x = (threadId, mapping)"
    by (cases x)
  show ?case
  proof (cases "now - cm_lastActivity mapping > maxAge")
    case True
    have S: "{y \<in> set (x # es). now - cm_lastActivity (snd y) > maxAge}
               = insert x {y \<in> set es. now - cm_lastActivity (snd y) > maxAge}"
      using True by (auto simp: x)
    have "filter (\<lambda>e. fst e \<notin> fst ` {x \<in> set es. now - cm_lastActivity (snd x) > maxAge})
            (map_delete threadId m)
          = filter (\<lambda>e. fst e \<notin> fst ` {y \<in> set (x # es). now - cm_lastActivity (snd y) > maxAge}) m"
      unfolding S map_delete_def filter_filter
      by (rule filter_cong) (auto simp: x)
    then show ?thesis
      using True Cons.IH [of "map_delete threadId m" "c + 1"] by (simp add: x)
  next
    case False
    have "{y \<in> set (x # es). now - cm_lastActivity (snd y) > maxAge}
            = {y \<in> set es. now - cm_lastActivity (snd y) > maxAge}"
      using False by (auto simp: x)
    then show ?thesis
      using False Cons.IH [of m c] by (simp add: x)
  qed
qed

lemma stale_keys_distinct:
  assumes "distinct (map fst m)" and "e \<in> set m"
  shows "fst e \<in> fst ` {x \<in> set m. P (snd x)} \<longleftrightarrow> P (snd e)"
proof
  assume "fst e \<in> fst ` {x \<in> set m. P (snd x)}"
  then obtain x where x: "x \<in> set m" "P (snd x)" "fst x = fst e"
    by auto
  then have "x = e"
    using assms by (metis eq_key_imp_eq_value prod.collapse)
  then show "P (snd e)"
    using x by simp
next
  assume "P (snd e)"
  then show "fst e \<in> fst ` {x \<in> set m. P (snd x)}"
    using assms(2) by blast
qed

lemma cleanupOldMappings_filter:
  assumes "distinct (map fst m)"
  shows "cleanupOldMappings now (Some h) m =
           (filter (\<lambda>e. \<not> cm_lastActivity (snd e) < now - h * 3600000) m,
            length (filter (\<lambda>e. cm_lastActivity (snd e) < now - h * 3600000) m))"
proof -
  let ?stale = "\<lambda>v. now - cm_lastActivity v > h * 60 * 60 * 1000"
  have stale: "?stale v \<longleftrightarrow> cm_lastActivity v < now - h * 3600000" for v
    by auto
  have "filter (\<lambda>e. fst e \<notin> fst ` {x \<in> set m. ?stale (snd x)}) m
          = filter (\<lambda>e. \<not> ?stale (snd e)) m"
  proof (rule filter_cong [OF refl])
    fix e assume "e \<in> set m"
    then show "(fst e \<notin> fst ` {x \<in> set m. ?stale (snd x)}) = (\<not> ?stale (snd e))"
      using stale_keys_distinct [OF assms, of e ?stale] by blast
  qed
  then have "cleanup_loop now (h * 60 * 60 * 1000) m (m, 0)
               = (filter (\<lambda>e. \<not> ?stale (snd e)) m, length (filter (\<lambda>e. ?stale (snd e)) m))"
    by (simp only: cleanup_loop_eq add_0)
  then have "cleanup_loop now (h * 60 * 60 * 1000) m (m, 0)
               = (filter (\<lambda>e. \<not> cm_lastActivity (snd e) < now - h * 3600000) m,
                  length (filter (\<lambda>e. cm_lastActivity (snd e) < now - h * 3600000) m))"
    by (simp only: stale)
  then show ?thesis
    by (simp only: cleanupOldMappings_def Let_def option.case)
qed

lemma map_of_filter_distinct:
  assumes "distinct (map fst m)" and "map_of m k = Some v"
  shows "map_of (filter P m) k = (if P (k, v) then Some v else None)"
proof (cases "P (k, v)")
  case True
  have "(k, v) \<in> set (filter P m)"
    using assms(2) True by (auto dest: map_of_SomeD)
  moreover have "distinct (map fst (filter P m))"
    using assms(1) by (rule distinct_map_filter)
  ultimately show ?thesis
    using True by simp
next
  case False
  have "k \<notin> fst ` set (filter P m)"
  proof
    assume "k \<in> fst ` set (filter P m)"
    then obtain v' where v': "(k, v') \<in> set m" "P (k, v')"
      by auto
    have "map_of m k = Some v'"
      using assms(1) v'(1) by simp
    then show False
      using assms(2) v'(2) False by simp
  qed
  then show ?thesis
    using False by (simp add: map_of_eq_None_iff)
qed

lemma sendReply_failure_sends_nothing:
  "\<not> rs_success (rr_response (sendReply now client m rq)) \<Longrightarrow>
   rr_sent (sendReply now client m rq) = [] \<and> rs_error (rr_response (sendReply now client m rq)) \<noteq> None"
  by (auto simp: sendReply_def split: option.splits prod.splits sum.splits js_error.splits)

lemma sendReply_unresolved:
  "fst (resolve_conversation now cl m rq) = None \<Longrightarrow>
   rr_response (sendReply now (Some cl) m rq) =
     \<lparr>rs_success = False, rs_error = Some ''Conversation not found'', rs_conversationId = None\<rparr>
   \<and> rr_sent (sendReply now (Some cl) m rq) = []"
  by (cases "resolve_conversation now cl m rq") (simp add: sendReply_def)

lemma sendReply_resolved:
  "resolve_conversation now cl m rq = (Some c, m') \<Longrightarrow>
   conversation_send cl c (rq_message rq) = Inr u \<Longrightarrow>
   sendReply now (Some cl) m rq =
     \<lparr>rr_response = \<lparr>rs_success = True, rs_error = None, rs_conversationId = Some c\<rparr>,
      rr_mappings = m', rr_sent = [(c, rq_message rq)]\<rparr>"
  by (simp add: sendReply_def)

lemma resolve_direct:
  "truthy (rq_conversationId rq) = Some cid \<Longrightarrow> getConversationById cl cid = Inr (Some c) \<Longrightarrow>
   resolve_conversation now cl m rq = (Some c, m)"
  by (simp add: resolve_conversation_def)

lemma resolve_by_thread:
  "\<forall>cid c'. truthy (rq_conversationId rq) = Some cid \<longrightarrow>
             getConversationById cl cid \<noteq> Inr (Some c') \<Longrightarrow>
   truthy (rq_threadId rq) = Some threadId \<Longrightarrow> map_of m threadId = Some mapping \<Longrightarrow>
   getConversationById cl (cm_conversationId mapping) = Inr (Some c) \<Longrightarrow>
   resolve_conversation now cl m rq
     = (Some c, map_set threadId (mapping\<lparr>cm_lastActivity := now\<rparr>) m)"
  by (auto simp: resolve_conversation_def split: sum.splits option.splits)

section \<open>Lemmas: coalescing scheduler\<close>

text \<open>The record of the call of \<^verbatim>\<open>processFn\<close> made by a timer that runs at time \<open>now\<close>.\<close>

lemma fire_timer_fields [simp]:
  "pendingMessages (fire_timer t st) = (pendingMessages st)(t_batchKey t := None)"
  "flushed (fire_timer t st) = flushed st @
     [\<lparr>f_batchKey = t_batchKey t, f_firedAt = clock st,
       f_messages = arrays st (t_messages t),
       f_finalMessage = finalMessage_of (t_processFn t) (arrays st (t_messages t))\<rparr>]"
  "clock (fire_timer t st) = clock st"
  "arrays (fire_timer t st) = arrays st"
  "timers (fire_timer t st) = timers st"
  "nextHandle (fire_timer t st) = nextHandle st"
  "nextRef (fire_timer t st) = nextRef st"
  by (simp_all add: fire_timer_def)

lemma fold_fire_timer_fields:
  "pendingMessages (fold fire_timer due st) =
     (\<lambda>k. if k \<in> t_batchKey ` set due then None else pendingMessages st k)"
  "flushed (fold fire_timer due st) = flushed st @
     map (\<lambda>t. \<lparr>f_batchKey = t_batchKey t, f_firedAt = clock st,
                f_messages = arrays st (t_messages t),
                f_finalMessage = finalMessage_of (t_processFn t) (arrays st (t_messages t))\<rparr>)
       due"
  "clock (fold fire_timer due st) = clock st"
  "arrays (fold fire_timer due st) = arrays st"
  "timers (fold fire_timer due st) = timers st"
  "nextHandle (fold fire_timer due st) = nextHandle st"
  "nextRef (fold fire_timer due st) = nextRef st"
proof (induction due arbitrary: st)
  case Nil
  {
    case 1 show ?case by simp
  next
    case 2 show ?case by simp
  next
    case 3 show ?case by simp
  next
    case 4 show ?case by simp
  next
    case 5 show ?case by simp
  next
    case 6 show ?case by simp
  next
    case 7 show ?case by simp
  }
next
  case (Cons t due)
  {
    case 1 show ?case by (auto simp: Cons.IH fun_eq_iff)
  next
    case 2 show ?case by (simp add: Cons.IH)
  next
    case 3 show ?case by (simp add: Cons.IH)
  next
    case 4 show ?case by (simp add: Cons.IH)
  next
    case 5 show ?case by (simp add: Cons.IH)
  next
    case 6 show ?case by (simp add: Cons.IH)
  next
    case 7 show ?case by (simp add: Cons.IH)
  }
qed

lemma advance_clock [simp]: "clock (advance now st) = max now (clock st)"
  by (simp add: advance_def fold_fire_timer_fields Let_def)

lemma advance_timers [simp]:
  "timers (advance now st) = filter (\<lambda>t. \<not> t_fireAt t \<le> max now (clock st)) (timers st)"
  by (simp add: advance_def fold_fire_timer_fields Let_def)

lemma advance_arrays [simp]: "arrays (advance now st) = arrays st"
  by (simp add: advance_def fold_fire_timer_fields Let_def)

lemma advance_nextHandle [simp]: "nextHandle (advance now st) = nextHandle st"
  by (simp add: advance_def fold_fire_timer_fields Let_def)

lemma advance_nextRef [simp]: "nextRef (advance now st) = nextRef st"
  by (simp add: advance_def fold_fire_timer_fields Let_def)

lemma advance_pending:
  "pendingMessages (advance now st) k =
     (if \<exists>t \<in> set (timers st). t_batchKey t = k \<and> t_fireAt t \<le> max now (clock st)
      then None else pendingMessages st k)"
  by (auto simp: advance_def fold_fire_timer_fields Let_def)

lemma advance_flushed:
  "flushed (advance now st) = flushed st @
     map (\<lambda>t. \<lparr>f_batchKey = t_batchKey t, f_firedAt = max now (clock st),
                f_messages = arrays st (t_messages t),
                f_finalMessage = finalMessage_of (t_processFn t) (arrays st (t_messages t))\<rparr>)
       (filter (\<lambda>t. t_fireAt t \<le> max now (clock st)) (timers st))"
  by (simp add: advance_def fold_fire_timer_fields Let_def)

lemma sched_inv_initial: "sched_inv initial_scheduler"
  by (simp add: sched_inv_def initial_scheduler_def)

lemma inv_timer_pending:
  "sched_inv st \<Longrightarrow> t \<in> set (timers st) \<Longrightarrow>
   \<exists>p. pendingMessages st (t_batchKey t) = Some p
        \<and> pm_timeout p = t_handle t \<and> pm_messages p = t_messages t"
  unfolding sched_inv_def by blast

lemma inv_pending_timer:
  "sched_inv st \<Longrightarrow> pendingMessages st k = Some p \<Longrightarrow> \<exists>t \<in> set (timers st). t_batchKey t = k"
  unfolding sched_inv_def by blast

lemma inv_distinct_keys: "sched_inv st \<Longrightarrow> distinct (map t_batchKey (timers st))"
  unfolding sched_inv_def by blast

lemma inv_distinct_handles: "sched_inv st \<Longrightarrow> distinct (map t_handle (timers st))"
  unfolding sched_inv_def by blast

lemma inv_handles_below: "sched_inv st \<Longrightarrow> t \<in> set (timers st) \<Longrightarrow> t_handle t < nextHandle st"
  unfolding sched_inv_def by blast

lemma inv_refs_below: "sched_inv st \<Longrightarrow> pendingMessages st k = Some p \<Longrightarrow> pm_messages p < nextRef st"
  unfolding sched_inv_def by blast

lemma inv_no_alias:
  "sched_inv st \<Longrightarrow> pendingMessages st k = Some p \<Longrightarrow> pendingMessages st k' = Some p' \<Longrightarrow>
   pm_messages p = pm_messages p' \<Longrightarrow> k = k'"
  unfolding sched_inv_def by blast

lemma inv_timer_due:
  "sched_inv st \<Longrightarrow> t \<in> set (timers st) \<Longrightarrow>
   arrays st (t_messages t) \<noteq> []
   \<and> t_fireAt t = bm_timestamp (last (arrays st (t_messages t))) + MESSAGE_BATCH_DELAY
   \<and> clock st < t_fireAt t"
  unfolding sched_inv_def by blast

lemma inv_flushed:
  "sched_inv st \<Longrightarrow> f \<in> set (flushed st) \<Longrightarrow>
   f_messages f \<noteq> [] \<and> bm_timestamp (last (f_messages f)) + MESSAGE_BATCH_DELAY \<le> f_firedAt f"
  unfolding sched_inv_def by blast

lemma same_key_same_timer:
  "distinct (map t_batchKey ts) \<Longrightarrow> t \<in> set ts \<Longrightarrow> t' \<in> set ts \<Longrightarrow>
   t_batchKey t = t_batchKey t' \<Longrightarrow> t = t'"
  by (meson distinct_map inj_onD)

lemma sched_inv_advance:
  assumes inv: "sched_inv st"
  shows "sched_inv (advance now st)"
proof -
  let ?now = "max now (clock st)"
  let ?st = "advance now st"
  have sub: "set (timers ?st) \<subseteq> set (timers st)"
    by auto
  have keep: "pendingMessages ?st (t_batchKey t) = pendingMessages st (t_batchKey t)"
    if "t \<in> set (timers ?st)" for t
  proof -
    have t: "t \<in> set (timers st)" "\<not> t_fireAt t \<le> ?now"
      using that by auto
    have "\<not> (\<exists>t' \<in> set (timers st). t_batchKey t' = t_batchKey t \<and> t_fireAt t' \<le> ?now)"
    proof
      assume "\<exists>t' \<in> set (timers st). t_batchKey t' = t_batchKey t \<and> t_fireAt t' \<le> ?now"
      then obtain t' where t': "t' \<in> set (timers st)" "t_batchKey t' = t_batchKey t" "t_fireAt t' \<le> ?now"
        by blast
      have "t' = t"
        using inv_distinct_keys [OF inv] t'(1) t(1) t'(2) by (rule same_key_same_timer)
      then show False
        using t' t by simp
    qed
    then show ?thesis
      unfolding advance_pending by (rule if_not_P)
  qed
  have c1: "\<forall>t \<in> set (timers ?st). \<exists>p. pendingMessages ?st (t_batchKey t) = Some p
          \<and> pm_timeout p = t_handle t \<and> pm_messages p = t_messages t"
  proof
    fix t assume t: "t \<in> set (timers ?st)"
    then have "t \<in> set (timers st)"
      using sub by blast
    then show "\<exists>p. pendingMessages ?st (t_batchKey t) = Some p
          \<and> pm_timeout p = t_handle t \<and> pm_messages p = t_messages t"
      using inv_timer_pending [OF inv] keep [OF t] by simp
  qed
  have pend: "pendingMessages st k = Some p
      \<and> \<not> (\<exists>t \<in> set (timers st). t_batchKey t = k \<and> t_fireAt t \<le> ?now)"
    if "pendingMessages ?st k = Some p" for k p
    using that by (simp add: advance_pending split: if_splits)
  have c2: "\<forall>k p. pendingMessages ?st k = Some p \<longrightarrow> (\<exists>t \<in> set (timers ?st). t_batchKey t = k)"
  proof (intro allI impI)
    fix k p assume "pendingMessages ?st k = Some p"
    then have p: "pendingMessages st k = Some p"
      and nd: "\<not> (\<exists>t \<in> set (timers st). t_batchKey t = k \<and> t_fireAt t \<le> ?now)"
      using pend by blast+
    obtain t where "t \<in> set (timers st)" "t_batchKey t = k"
      using inv_pending_timer [OF inv p] by blast
    then show "\<exists>t \<in> set (timers ?st). t_batchKey t = k"
      using nd by auto
  qed
  have c3: "distinct (map t_batchKey (timers ?st))"
    using inv_distinct_keys [OF inv] by (simp add: distinct_map_filter)
  have c4: "distinct (map t_handle (timers ?st))"
    using inv_distinct_handles [OF inv] by (simp add: distinct_map_filter)
  have c5: "\<forall>t \<in> set (timers ?st). t_handle t < nextHandle ?st"
    using inv_handles_below [OF inv] by simp
  have c6: "\<forall>k p. pendingMessages ?st k = Some p \<longrightarrow> pm_messages p < nextRef ?st"
    using inv_refs_below [OF inv] pend by auto
  have c7: "\<forall>k k' p p'. pendingMessages ?st k = Some p \<and> pendingMessages ?st k' = Some p'
          \<and> pm_messages p = pm_messages p' \<longrightarrow> k = k'"
    using inv_no_alias [OF inv] pend by blast
  have c8: "\<forall>t \<in> set (timers ?st). arrays ?st (t_messages t) \<noteq> []
          \<and> t_fireAt t = bm_timestamp (last (arrays ?st (t_messages t))) + MESSAGE_BATCH_DELAY
          \<and> clock ?st < t_fireAt t"
    using inv_timer_due [OF inv] by auto
  have c9: "\<forall>f \<in> set (flushed ?st). f_messages f \<noteq> []
          \<and> bm_timestamp (last (f_messages f)) + MESSAGE_BATCH_DELAY \<le> f_firedAt f"
  proof
    fix f assume "f \<in> set (flushed ?st)"
    then consider "f \<in> set (flushed st)"
      | t where "t \<in> set (timers st)" "t_fireAt t \<le> ?now"
          "f = \<lparr>f_batchKey = t_batchKey t, f_firedAt = ?now,
                f_messages = arrays st (t_messages t),
                f_finalMessage = finalMessage_of (t_processFn t) (arrays st (t_messages t))\<rparr>"
      by (auto simp: advance_flushed)
    then show "f_messages f \<noteq> []
          \<and> bm_timestamp (last (f_messages f)) + MESSAGE_BATCH_DELAY \<le> f_firedAt f"
    proof cases
      case 1
      then show ?thesis
        using inv_flushed [OF inv] by blast
    next
      case 2
      then show ?thesis
        using inv_timer_due [OF inv 2(1)] by simp
    qed
  qed
  show ?thesis
    unfolding sched_inv_def using c1 c2 c3 c4 c5 c6 c7 c8 c9 by blast
qed

lemma clear_existing:
  assumes inv: "sched_inv st" and e: "pendingMessages st k = Some e"
  shows "clearTimeout (pm_timeout e) (timers st) = filter (\<lambda>t. t_batchKey t \<noteq> k) (timers st)"
  unfolding clearTimeout_def
proof (rule filter_cong [OF refl])
  fix t assume t: "t \<in> set (timers st)"
  obtain tk where tk: "tk \<in> set (timers st)" "t_batchKey tk = k"
    using inv_pending_timer [OF inv e] by blast
  have hk: "t_handle tk = pm_timeout e"
    using inv_timer_pending [OF inv tk(1)] tk(2) e by auto
  show "(t_handle t \<noteq> pm_timeout e) = (t_batchKey t \<noteq> k)"
  proof (cases "t_batchKey t = k")
    case True
    then have "t = tk"
      using same_key_same_timer [OF inv_distinct_keys [OF inv] t tk(1)] tk(2) by simp
    then show ?thesis
      using True hk by simp
  next
    case False
    have "t_handle t \<noteq> t_handle tk"
    proof
      assume "t_handle t = t_handle tk"
      then have "t = tk"
        using inv_distinct_handles [OF inv] t tk(1) by (meson distinct_map inj_onD)
      then show False
        using False tk(2) by simp
    qed
    then show ?thesis
      using False hk by simp
  qed
qed

lemma no_existing:
  assumes inv: "sched_inv st" and e: "pendingMessages st k = None"
  shows "filter (\<lambda>t. t_batchKey t \<noteq> k) (timers st) = timers st"
proof -
  have "t_batchKey t \<noteq> k" if "t \<in> set (timers st)" for t
    using inv_timer_pending [OF inv that] e by auto
  then show ?thesis
    by (simp add: filter_id_conv)
qed

text \<open>What one call of \<^verbatim>\<open>addMessageToBatch\<close> does to each part of the state.\<close>

lemma add_unchanged [simp]:
  "clock (addMessageToBatch c s i ty content pf st) = clock st"
  "flushed (addMessageToBatch c s i ty content pf st) = flushed st"
  "nextHandle (addMessageToBatch c s i ty content pf st) = nextHandle st + 1"
  by (simp_all add: addMessageToBatch_def Let_def)

lemma add_pending:
  "pendingMessages (addMessageToBatch c s i ty content pf st) =
     (pendingMessages st)(batchKey_of c s \<mapsto>
        \<lparr>pm_conversationId = c, pm_senderAddress = s,
         pm_messages = (case pendingMessages st (batchKey_of c s) of
                          None \<Rightarrow> nextRef st | Some e \<Rightarrow> pm_messages e),
         pm_timeout = nextHandle st\<rparr>)"
  by (simp add: addMessageToBatch_def Let_def)

lemma add_timers:
  assumes inv: "sched_inv st"
  shows "timers (addMessageToBatch c s i ty content pf st) =
     filter (\<lambda>t. t_batchKey t \<noteq> batchKey_of c s) (timers st) @
       [\<lparr>t_handle = nextHandle st, t_fireAt = clock st + MESSAGE_BATCH_DELAY,
         t_batchKey = batchKey_of c s,
         t_messages = (case pendingMessages st (batchKey_of c s) of
                         None \<Rightarrow> nextRef st | Some e \<Rightarrow> pm_messages e),
         t_processFn = pf\<rparr>]"
proof (cases "pendingMessages st (batchKey_of c s)")
  case None
  then show ?thesis
    using no_existing [OF inv None] by (simp add: addMessageToBatch_def Let_def)
next
  case (Some e)
  then show ?thesis
    using clear_existing [OF inv Some] by (simp add: addMessageToBatch_def Let_def)
qed

lemma add_nextRef:
  "nextRef (addMessageToBatch c s i ty content pf st) =
     (case pendingMessages st (batchKey_of c s) of None \<Rightarrow> nextRef st + 1 | Some e \<Rightarrow> nextRef st)"
  by (simp add: addMessageToBatch_def Let_def)

lemma add_arrays_batch:
  "arrays (addMessageToBatch c s i ty content pf st)
     (case pendingMessages st (batchKey_of c s) of None \<Rightarrow> nextRef st | Some e \<Rightarrow> pm_messages e) =
     (case pendingMessages st (batchKey_of c s) of
        None \<Rightarrow> [] | Some e \<Rightarrow> arrays st (pm_messages e))
     @ [\<lparr>bm_id = i, bm_type = ty, bm_content = content, bm_timestamp = clock st\<rparr>]"
  by (simp add: addMessageToBatch_def Let_def split: option.splits)

lemma add_arrays_other:
  "r \<noteq> (case pendingMessages st (batchKey_of c s) of None \<Rightarrow> nextRef st | Some e \<Rightarrow> pm_messages e) \<Longrightarrow>
   arrays (addMessageToBatch c s i ty content pf st) r = arrays st r"
  by (simp add: addMessageToBatch_def Let_def split: option.splits)

text \<open>The array of another pending batch is not the array the fragment is pushed to.\<close>

lemma other_batch_other_array:
  assumes inv: "sched_inv st" and p: "pendingMessages st k' = Some p'" and ne: "k' \<noteq> k"
  shows "pm_messages p' \<noteq> (case pendingMessages st k of None \<Rightarrow> nextRef st | Some e \<Rightarrow> pm_messages e)"
proof (cases "pendingMessages st k")
  case None
  then show ?thesis
    using inv_refs_below [OF inv p] by simp
next
  case (Some e)
  then show ?thesis
    using inv_no_alias [OF inv p Some] ne by auto
qed

lemma sched_inv_add:
  assumes inv: "sched_inv st"
  shows "sched_inv (addMessageToBatch c s i ty content pf st)"
proof -
  let ?k = "batchKey_of c s"
  let ?ref = "case pendingMessages st ?k of None \<Rightarrow> nextRef st | Some e \<Rightarrow> pm_messages e"
  let ?msg = "\<lparr>bm_id = i, bm_type = ty, bm_content = content, bm_timestamp = clock st\<rparr>"
  let ?tn = "\<lparr>t_handle = nextHandle st, t_fireAt = clock st + MESSAGE_BATCH_DELAY,
              t_batchKey = ?k, t_messages = ?ref, t_processFn = pf\<rparr>"
  let ?pn = "\<lparr>pm_conversationId = c, pm_senderAddress = s, pm_messages = ?ref,
              pm_timeout = nextHandle st\<rparr>"
  let ?st = "addMessageToBatch c s i ty content pf st"
  have T: "timers ?st = filter (\<lambda>t. t_batchKey t \<noteq> ?k) (timers st) @ [?tn]"
    using inv by (rule add_timers)
  have P: "pendingMessages ?st = (pendingMessages st)(?k \<mapsto> ?pn)"
    by (rule add_pending)
  have old: "t \<in> set (timers st) \<and> t_batchKey t \<noteq> ?k \<or> t = ?tn" if "t \<in> set (timers ?st)" for t
    using that unfolding T by auto
  have ref_below: "?ref < nextRef ?st"
    using inv_refs_below [OF inv] by (auto simp: add_nextRef split: option.splits)
  have nextRef_mono: "nextRef st \<le> nextRef ?st"
    by (simp add: add_nextRef split: option.splits)
  have other_ref: "pm_messages p' \<noteq> ?ref" if "pendingMessages st k' = Some p'" "k' \<noteq> ?k" for k' p'
    using inv that by (rule other_batch_other_array)
  have old_array: "arrays ?st (t_messages t) = arrays st (t_messages t)"
    if t: "t \<in> set (timers st)" "t_batchKey t \<noteq> ?k" for t
  proof -
    obtain p where p: "pendingMessages st (t_batchKey t) = Some p" "pm_messages p = t_messages t"
      using inv_timer_pending [OF inv t(1)] by blast
    have "t_messages t \<noteq> ?ref"
      using other_ref [OF p(1) t(2)] p(2) by simp
    then show ?thesis
      by (rule add_arrays_other)
  qed
  have c1: "\<forall>t \<in> set (timers ?st). \<exists>p. pendingMessages ?st (t_batchKey t) = Some p
          \<and> pm_timeout p = t_handle t \<and> pm_messages p = t_messages t"
  proof
    fix t assume "t \<in> set (timers ?st)"
    then consider "t \<in> set (timers st)" "t_batchKey t \<noteq> ?k" | "t = ?tn"
      using old by blast
    then show "\<exists>p. pendingMessages ?st (t_batchKey t) = Some p
          \<and> pm_timeout p = t_handle t \<and> pm_messages p = t_messages t"
    proof cases
      case 1
      then show ?thesis
        using inv_timer_pending [OF inv 1(1)] by (simp add: P)
    next
      case 2
      then show ?thesis
        by (simp add: P)
    qed
  qed
  have c2: "\<forall>k p. pendingMessages ?st k = Some p \<longrightarrow> (\<exists>t \<in> set (timers ?st). t_batchKey t = k)"
  proof (intro allI impI)
    fix k p assume kp: "pendingMessages ?st k = Some p"
    show "\<exists>t \<in> set (timers ?st). t_batchKey t = k"
    proof (cases "k = ?k")
      case True
      then show ?thesis
        unfolding T by simp
    next
      case False
      then have "pendingMessages st k = Some p"
        using kp by (simp add: P)
      then obtain t where "t \<in> set (timers st)" "t_batchKey t = k"
        using inv_pending_timer [OF inv] by blast
      then show ?thesis
        unfolding T using False by auto
    qed
  qed
  have c3: "distinct (map t_batchKey (timers ?st))"
    unfolding T using inv_distinct_keys [OF inv] by (auto simp: distinct_map_filter)
  have fresh: "nextHandle st \<notin> t_handle ` set (timers st)"
    using inv_handles_below [OF inv] by fastforce
  have c4: "distinct (map t_handle (timers ?st))"
    unfolding T using inv_distinct_handles [OF inv] fresh
    by (auto simp: distinct_map_filter)
  have c5: "\<forall>t \<in> set (timers ?st). t_handle t < nextHandle ?st"
  proof
    fix t assume "t \<in> set (timers ?st)"
    then consider "t \<in> set (timers st)" | "t = ?tn"
      using old by blast
    then show "t_handle t < nextHandle ?st"
    proof cases
      case 1
      then show ?thesis
        using inv_handles_below [OF inv 1] by simp
    next
      case 2
      then show ?thesis by simp
    qed
  qed
  have c6: "\<forall>k p. pendingMessages ?st k = Some p \<longrightarrow> pm_messages p < nextRef ?st"
  proof (intro allI impI)
    fix k p assume kp: "pendingMessages ?st k = Some p"
    show "pm_messages p < nextRef ?st"
    proof (cases "k = ?k")
      case True
      then have "p = ?pn"
        using kp by (simp add: P)
      then show ?thesis
        using ref_below by simp
    next
      case False
      then have "pendingMessages st k = Some p"
        using kp by (simp add: P)
      then show ?thesis
        using inv_refs_below [OF inv] nextRef_mono by fastforce
    qed
  qed
  have c7: "\<forall>k k' p p'. pendingMessages ?st k = Some p \<and> pendingMessages ?st k' = Some p'
          \<and> pm_messages p = pm_messages p' \<longrightarrow> k = k'"
  proof (intro allI impI)
    fix k k' p p'
    assume a: "pendingMessages ?st k = Some p \<and> pendingMessages ?st k' = Some p'
          \<and> pm_messages p = pm_messages p'"
    show "k = k'"
    proof (rule ccontr)
      assume ne: "k \<noteq> k'"
      show False
      proof (cases "k = ?k")
        case True
        then have "p = ?pn" "pendingMessages st k' = Some p'" "k' \<noteq> ?k"
          using a ne by (simp_all add: P)
        then show False
          using other_ref [of k' p'] a by simp
      next
        case False
        then have pk: "pendingMessages st k = Some p"
          using a by (simp add: P)
        show False
        proof (cases "k' = ?k")
          case True
          then have "p' = ?pn"
            using a by (simp add: P)
          then show False
            using other_ref [OF pk False] a by simp
        next
          case k': False
          then have "pendingMessages st k' = Some p'"
            using a by (simp add: P)
          then show False
            using inv_no_alias [OF inv pk] a ne by blast
        qed
      qed
    qed
  qed
  have c8: "\<forall>t \<in> set (timers ?st). arrays ?st (t_messages t) \<noteq> []
          \<and> t_fireAt t = bm_timestamp (last (arrays ?st (t_messages t))) + MESSAGE_BATCH_DELAY
          \<and> clock ?st < t_fireAt t"
  proof
    fix t assume "t \<in> set (timers ?st)"
    then consider "t \<in> set (timers st)" "t_batchKey t \<noteq> ?k" | "t = ?tn"
      using old by blast
    then show "arrays ?st (t_messages t) \<noteq> []
          \<and> t_fireAt t = bm_timestamp (last (arrays ?st (t_messages t))) + MESSAGE_BATCH_DELAY
          \<and> clock ?st < t_fireAt t"
    proof cases
      case 1
      then show ?thesis
        using inv_timer_due [OF inv 1(1)] old_array [OF 1] by simp
    next
      case 2
      have "arrays ?st ?ref = (case pendingMessages st ?k of
                None \<Rightarrow> [] | Some e \<Rightarrow> arrays st (pm_messages e)) @ [?msg]"
        by (rule add_arrays_batch)
      then show ?thesis
        using 2 by (simp add: MESSAGE_BATCH_DELAY_def)
    qed
  qed
  have c9: "\<forall>f \<in> set (flushed ?st). f_messages f \<noteq> []
          \<and> bm_timestamp (last (f_messages f)) + MESSAGE_BATCH_DELAY \<le> f_firedAt f"
    using inv_flushed [OF inv] by simp
  show ?thesis
    unfolding sched_inv_def using c1 c2 c3 c4 c5 c6 c7 c8 c9 by blast
qed

lemma sched_inv_step: "sched_inv st \<Longrightarrow> sched_inv (step ev st)"
  by (cases ev) (simp_all add: sched_inv_add sched_inv_advance)

lemma sched_inv_run: "sched_inv st \<Longrightarrow> sched_inv (run evs st)"
  unfolding run_def by (induction evs arbitrary: st) (simp_all add: sched_inv_step)

lemma sched_inv_reachable: "sched_inv (run evs initial_scheduler)"
  using sched_inv_initial by (rule sched_inv_run)

lemma run_Cons: "run (ev # evs) st = run evs (step ev st)"
  by (simp add: run_def)

lemma run_Nil: "run [] st = st"
  by (simp add: run_def)

lemma filter_key_unique:
  "distinct (map f xs) \<Longrightarrow> x \<in> set xs \<Longrightarrow> filter (\<lambda>y. f y = f x) xs = [x]"
proof (induction xs)
  case Nil
  then show ?case by simp
next
  case (Cons a xs)
  show ?case
  proof (cases "a = x")
    case True
    have "f y \<noteq> f x" if "y \<in> set xs" for y
      using Cons.prems(1) True that by (metis distinct.simps(2) image_eqI list.simps(9) set_map)
    then have "filter (\<lambda>y. f y = f x) xs = []"
      by (simp add: filter_empty_conv)
    then show ?thesis
      using True by simp
  next
    case False
    then have "x \<in> set xs" "f a \<noteq> f x"
      using Cons.prems by auto
    then show ?thesis
      using Cons by simp
  qed
qed

text \<open>Under the invariant a key has no live timer or exactly one, as it has a pending batch or not.\<close>

lemma timers_of_none:
  assumes inv: "sched_inv st" and "pendingMessages st k = None"
  shows "timers_of k st = []"
proof -
  have "t_batchKey t \<noteq> k" if "t \<in> set (timers st)" for t
    using inv_timer_pending [OF inv that] assms(2) by auto
  then show ?thesis
    by (simp add: timers_of_def filter_empty_conv)
qed

lemma timers_of_some:
  assumes inv: "sched_inv st" and p: "pendingMessages st k = Some p"
  shows "\<exists>t. timers_of k st = [t] \<and> t \<in> set (timers st) \<and> t_batchKey t = k
             \<and> t_handle t = pm_timeout p \<and> t_messages t = pm_messages p"
proof -
  obtain t where t: "t \<in> set (timers st)" "t_batchKey t = k"
    using inv_pending_timer [OF inv p] by blast
  have tp: "t_handle t = pm_timeout p" "t_messages t = pm_messages p"
    using inv_timer_pending [OF inv t(1)] t(2) p by auto
  have "distinct (map t_batchKey (timers st))"
    using inv by (rule inv_distinct_keys)
  then have "filter (\<lambda>t'. t_batchKey t' = t_batchKey t) (timers st) = [t]"
    using t(1) by (rule filter_key_unique)
  then show ?thesis
    using t tp by (auto simp: timers_of_def)
qed

lemma advance_not_due:
  assumes "\<forall>t \<in> set (timers_of k st). \<not> t_fireAt t \<le> max now (clock st)"
  shows "pendingMessages (advance now st) k = pendingMessages st k"
    and "flushes_of k (advance now st) = flushes_of k st"
    and "timers_of k (advance now st) = timers_of k st"
proof -
  have nd: "\<not> t_fireAt t \<le> max now (clock st)" if "t \<in> set (timers st)" "t_batchKey t = k" for t
    using assms that by (simp add: timers_of_def)
  then show "pendingMessages (advance now st) k = pendingMessages st k"
    unfolding advance_pending by (intro if_not_P) blast
  have "filter (\<lambda>t. t_batchKey t = k) (filter (\<lambda>t. t_fireAt t \<le> max now (clock st)) (timers st)) = []"
    using nd by (auto simp: filter_empty_conv)
  then show "flushes_of k (advance now st) = flushes_of k st"
    by (simp add: flushes_of_def advance_flushed filter_map comp_def)
  have "filter (\<lambda>t. t_batchKey t = k) (filter (\<lambda>t. \<not> t_fireAt t \<le> max now (clock st)) (timers st))
          = filter (\<lambda>t. t_batchKey t = k) (timers st)"
    unfolding filter_filter using nd by (intro filter_cong) auto
  then show "timers_of k (advance now st) = timers_of k st"
    by (simp add: timers_of_def)
qed

lemma advance_due:
  assumes one: "timers_of k st = [t]" and due: "t_fireAt t \<le> max now (clock st)"
  shows "pendingMessages (advance now st) k = None"
    and "flushes_of k (advance now st) = flushes_of k st @
           [\<lparr>f_batchKey = k, f_firedAt = max now (clock st),
             f_messages = arrays st (t_messages t),
             f_finalMessage = finalMessage_of (t_processFn t) (arrays st (t_messages t))\<rparr>]"
proof -
  have "t \<in> set (filter (\<lambda>t. t_batchKey t = k) (timers st))"
    using one unfolding timers_of_def by simp
  then have t: "t \<in> set (timers st)" "t_batchKey t = k"
    by simp_all
  then show "pendingMessages (advance now st) k = None"
    unfolding advance_pending using due by (intro if_P) blast
  have "filter (\<lambda>t. t_batchKey t = k) (filter (\<lambda>t. t_fireAt t \<le> max now (clock st)) (timers st))
          = filter (\<lambda>t. t_fireAt t \<le> max now (clock st)) (timers_of k st)"
    unfolding timers_of_def filter_filter by (intro filter_cong) auto
  also have "\<dots> = [t]"
    using one due by simp
  finally show "flushes_of k (advance now st) = flushes_of k st @
           [\<lparr>f_batchKey = k, f_firedAt = max now (clock st),
             f_messages = arrays st (t_messages t),
             f_finalMessage = finalMessage_of (t_processFn t) (arrays st (t_messages t))\<rparr>]"
    using t(2) by (simp add: flushes_of_def advance_flushed filter_map comp_def)
qed

lemma add_has_batch:
  assumes inv: "sched_inv st"
  shows "has_batch (batchKey_of c s)
           ((case pendingMessages st (batchKey_of c s) of
               None \<Rightarrow> [] | Some e \<Rightarrow> arrays st (pm_messages e))
            @ [\<lparr>bm_id = i, bm_type = ty, bm_content = content, bm_timestamp = clock st\<rparr>])
           (clock st + MESSAGE_BATCH_DELAY) pf
           (addMessageToBatch c s i ty content pf st)"
proof -
  let ?k = "batchKey_of c s"
  let ?ref = "case pendingMessages st ?k of None \<Rightarrow> nextRef st | Some e \<Rightarrow> pm_messages e"
  let ?tn = "\<lparr>t_handle = nextHandle st, t_fireAt = clock st + MESSAGE_BATCH_DELAY,
              t_batchKey = ?k, t_messages = ?ref, t_processFn = pf\<rparr>"
  let ?pn = "\<lparr>pm_conversationId = c, pm_senderAddress = s, pm_messages = ?ref,
              pm_timeout = nextHandle st\<rparr>"
  let ?st = "addMessageToBatch c s i ty content pf st"
  have "timers_of ?k ?st = [?tn]"
    unfolding timers_of_def add_timers [OF inv] by simp
  moreover have "pendingMessages ?st ?k = Some ?pn"
    by (simp add: add_pending)
  moreover have "arrays ?st (pm_messages ?pn) =
          (case pendingMessages st ?k of None \<Rightarrow> [] | Some e \<Rightarrow> arrays st (pm_messages e))
          @ [\<lparr>bm_id = i, bm_type = ty, bm_content = content, bm_timestamp = clock st\<rparr>]"
    using add_arrays_batch [of c s i ty content pf st] by simp
  ultimately show ?thesis
    unfolding has_batch_def by (intro exI [of _ ?pn] exI [of _ ?tn]) simp
qed

lemma has_batch_advance:
  assumes hb: "has_batch k msgs due pf st" and nd: "max now (clock st) < due"
  shows "has_batch k msgs due pf (advance now st)"
    and "flushes_of k (advance now st) = flushes_of k st"
proof -
  obtain p t where pt: "pendingMessages st k = Some p" "timers_of k st = [t]"
      "arrays st (pm_messages p) = msgs" "t_messages t = pm_messages p"
      "t_fireAt t = due" "t_processFn t = pf"
    using hb unfolding has_batch_def by blast
  have keep: "\<forall>t \<in> set (timers_of k st). \<not> t_fireAt t \<le> max now (clock st)"
    using pt nd by (simp add: not_le)
  show "flushes_of k (advance now st) = flushes_of k st"
    using keep by (rule advance_not_due)
  show "has_batch k msgs due pf (advance now st)"
    unfolding has_batch_def
    using pt advance_not_due(1) [OF keep] advance_not_due(3) [OF keep]
    by (intro exI [of _ p] exI [of _ t]) simp
qed

lemma has_batch_fires:
  assumes hb: "has_batch k msgs due pf st" and d: "due \<le> max now (clock st)"
  shows "flushes_of k (advance now st) = flushes_of k st @
           [\<lparr>f_batchKey = k, f_firedAt = max now (clock st), f_messages = msgs,
             f_finalMessage = finalMessage_of pf msgs\<rparr>]"
    and "pendingMessages (advance now st) k = None"
proof -
  obtain p t where pt: "pendingMessages st k = Some p" "timers_of k st = [t]"
      "arrays st (pm_messages p) = msgs" "t_messages t = pm_messages p"
      "t_fireAt t = due" "t_processFn t = pf"
    using hb unfolding has_batch_def by blast
  have due: "t_fireAt t \<le> max now (clock st)"
    using pt d by simp
  show "pendingMessages (advance now st) k = None"
    using pt(2) due by (rule advance_due)
  show "flushes_of k (advance now st) = flushes_of k st @
           [\<lparr>f_batchKey = k, f_firedAt = max now (clock st), f_messages = msgs,
             f_finalMessage = finalMessage_of pf msgs\<rparr>]"
    using advance_due(2) [OF pt(2) due] pt by simp
qed

lemma has_batch_pending:
  "has_batch k msgs due pf st \<Longrightarrow>
   (case pendingMessages st k of None \<Rightarrow> [] | Some e \<Rightarrow> arrays st (pm_messages e)) = msgs"
  unfolding has_batch_def by auto

lemma step_fragment_has_batch:
  assumes inv: "sched_inv st"
    and hb: "has_batch (batchKey_of c s) msgs (clock st + MESSAGE_BATCH_DELAY) pf st"
    and le: "clock st \<le> fr_at fr" and lt: "fr_at fr < clock st + MESSAGE_BATCH_DELAY"
  shows "has_batch (batchKey_of c s) (msgs @ [fragment_message fr])
           (clock (step (fragment_event c s fr) st) + MESSAGE_BATCH_DELAY)
           (handler_processFn (fr_type fr)) (step (fragment_event c s fr) st)"
    and "flushes_of (batchKey_of c s) (step (fragment_event c s fr) st) = flushes_of (batchKey_of c s) st"
    and "clock (step (fragment_event c s fr) st) = fr_at fr"
    and "sched_inv (step (fragment_event c s fr) st)"
proof -
  let ?k = "batchKey_of c s"
  let ?st1 = "advance (fr_at fr) st"
  let ?st2 = "step (fragment_event c s fr) st"
  have st2: "?st2 = addMessageToBatch c s (fr_id fr) (fr_type fr) (fr_content fr)
                      (handler_processFn (fr_type fr)) ?st1"
    by (simp add: fragment_event_def)
  have mx: "max (fr_at fr) (clock st) = fr_at fr"
    using le by simp
  have c1: "clock ?st1 = fr_at fr"
    using mx by simp
  have nd: "max (fr_at fr) (clock st) < clock st + MESSAGE_BATCH_DELAY"
    using lt mx by simp
  have hb1: "has_batch ?k msgs (clock st + MESSAGE_BATCH_DELAY) pf ?st1"
    using hb nd by (rule has_batch_advance)
  have fl1: "flushes_of ?k ?st1 = flushes_of ?k st"
    using hb nd by (rule has_batch_advance)
  have inv1: "sched_inv ?st1"
    using inv by (rule sched_inv_advance)
  have pend: "(case pendingMessages ?st1 ?k of None \<Rightarrow> [] | Some e \<Rightarrow> arrays ?st1 (pm_messages e)) = msgs"
    using hb1 by (rule has_batch_pending)
  have msg: "\<lparr>bm_id = fr_id fr, bm_type = fr_type fr, bm_content = fr_content fr,
              bm_timestamp = clock ?st1\<rparr> = fragment_message fr"
    by (simp only: c1 fragment_message_def)
  show "clock ?st2 = fr_at fr"
    unfolding st2 using c1 by simp
  then show "has_batch ?k (msgs @ [fragment_message fr]) (clock ?st2 + MESSAGE_BATCH_DELAY)
           (handler_processFn (fr_type fr)) ?st2"
    using add_has_batch [OF inv1, of c s "fr_id fr" "fr_type fr" "fr_content fr"
            "handler_processFn (fr_type fr)"]
    unfolding st2 pend msg c1 by (simp add: fragment_message_def)
  show "flushes_of ?k ?st2 = flushes_of ?k st"
    unfolding st2 using fl1 by (simp add: flushes_of_def)
  show "sched_inv ?st2"
    unfolding st2 using inv1 by (rule sched_inv_add)
qed

lemma run_fragments:
  assumes "sched_inv st"
    and "has_batch (batchKey_of c s) msgs (clock st + MESSAGE_BATCH_DELAY) pf st"
    and "within_quiet_period (clock st) frs"
  shows "has_batch (batchKey_of c s) (msgs @ map fragment_message frs)
           (clock (run (map (fragment_event c s) frs) st) + MESSAGE_BATCH_DELAY)
           (if frs = [] then pf else handler_processFn (fr_type (last frs)))
           (run (map (fragment_event c s) frs) st)
       \<and> flushes_of (batchKey_of c s) (run (map (fragment_event c s) frs) st)
           = flushes_of (batchKey_of c s) st
       \<and> clock (run (map (fragment_event c s) frs) st)
           = (if frs = [] then clock st else fr_at (last frs))
       \<and> sched_inv (run (map (fragment_event c s) frs) st)"
  using assms
proof (induction frs arbitrary: st msgs pf)
  case Nil
  then show ?case by (simp add: run_Nil)
next
  case (Cons fr frs)
  let ?st2 = "step (fragment_event c s fr) st"
  have le: "clock st \<le> fr_at fr" and lt: "fr_at fr < clock st + MESSAGE_BATCH_DELAY"
    and rest: "within_quiet_period (fr_at fr) frs"
    using Cons.prems(3) by simp_all
  note S = step_fragment_has_batch [OF Cons.prems(1) Cons.prems(2) le lt]
  have rest': "within_quiet_period (clock ?st2) frs"
    using rest S(3) by simp
  note IH = Cons.IH [OF S(4) S(1) rest']
  have run_eq: "run (map (fragment_event c s) (fr # frs)) st
                  = run (map (fragment_event c s) frs) ?st2"
    by (simp add: run_Cons)
  have msgs_eq: "msgs @ map fragment_message (fr # frs)
                   = (msgs @ [fragment_message fr]) @ map fragment_message frs"
    by simp
  have pf_eq: "(if fr # frs = [] then pf else handler_processFn (fr_type (last (fr # frs))))
                 = (if frs = [] then handler_processFn (fr_type fr)
                    else handler_processFn (fr_type (last frs)))"
    by simp
  have at_eq: "(if fr # frs = [] then clock st else fr_at (last (fr # frs)))
                 = (if frs = [] then clock ?st2 else fr_at (last frs))"
    using S(3) by simp
  show ?case
    unfolding run_eq msgs_eq pf_eq at_eq using IH [unfolded S(2)] .
qed

lemma finalMessage_of_handler:
  assumes "msgs \<noteq> []"
  shows "finalMessage_of (handler_processFn (bm_type (last msgs))) msgs =
           (if bm_type (last msgs) = ImageKind
               \<and> join NN (map bm_content (filter (\<lambda>m. bm_type m = TextKind) msgs)) = []
            then join NN (map bm_content (filter (\<lambda>m. bm_type m = ImageKind) msgs))
            else spec_combined msgs)"
proof (cases "bm_type (last msgs)")
  case TextKind
  then show ?thesis
    by (simp add: finalMessage_of_def handler_processFn_def text_finalMessage_def
          spec_combined_def Let_def)
next
  case ImageKind
  have "last msgs \<in> set (filter (\<lambda>m. bm_type m = ImageKind) msgs)"
    using assms ImageKind by simp
  then have "filter (\<lambda>m. bm_type m = ImageKind) msgs \<noteq> []"
    by (metis empty_iff empty_set)
  then show ?thesis
    using ImageKind
    by (simp add: finalMessage_of_def handler_processFn_def attachment_finalMessage_def
          spec_combined_def Let_def)
qed

section \<open>Claims\<close>

text \<open>
  C1, as stated: the combined text of the flush is the text fragments joined by double
  newlines, followed, when there are image fragments, by a double newline and the image
  fragments joined by double newlines. For a batch of one image fragment the claim gives
  a double newline followed by the image text; the callback of the attachment handler,
  which is the one that runs when the last fragment is an image, gives the image text
  alone.
\<close>

theorem image_only_flush_counterexample:
  "flushes_of (batchKey_of ''c'' ''s'')
     (advance 1000
        (run [fragment_event ''c'' ''s''
                \<lparr>fr_at = 0, fr_id = ''m1'', fr_type = ImageKind, fr_content = ''x''\<rparr>]
           initial_scheduler))
     = [\<lparr>f_batchKey = ''c-s'', f_firedAt = 1000,
         f_messages = [\<lparr>bm_id = ''m1'', bm_type = ImageKind, bm_content = ''x'',
                        bm_timestamp = 0\<rparr>],
         f_finalMessage = ''x''\<rparr>]
   \<and> spec_combined [\<lparr>bm_id = ''m1'', bm_type = ImageKind, bm_content = ''x'',
                      bm_timestamp = 0\<rparr>] = [CHR 0x0A, CHR 0x0A, CHR ''x'']
   \<and> ''x'' \<noteq> [CHR 0x0A, CHR 0x0A, CHR ''x'']"
  by (simp add: flushes_of_def fragment_event_def handler_processFn_def run_def
        addMessageToBatch_def advance_def fire_timer_def initial_scheduler_def
        batchKey_of_def clearTimeout_def MESSAGE_BATCH_DELAY_def finalMessage_of_def
        attachment_finalMessage_def spec_combined_def NN_def Let_def)

text \<open>
  C1, amended. Start in any state the scheduler can reach in which the key of
  (conversation, sender) has no pending batch, and let one or more fragments of that
  sender arrive, each less than the batch delay after the one before. Then exactly one
  flush of the key occurs, once the batch delay has passed after the last fragment (none
  before), and it hands over all the fragments in arrival order. Its combined text is
  the text fragments joined by double newlines, followed, when there are image
  fragments, by a double newline and the image fragments joined by double newlines;
  except that, when the last fragment is an image and the joined text is empty, it is
  the image fragments joined by double newlines, with no double newline in front.
\<close>

theorem coalesced_flush:
  "pendingMessages (run evs initial_scheduler) (batchKey_of c s) = None \<Longrightarrow>
   clock (run evs initial_scheduler) \<le> fr_at fr \<Longrightarrow>
   within_quiet_period (fr_at fr) frs \<Longrightarrow>
   fr_at (last (fr # frs)) + MESSAGE_BATCH_DELAY \<le> T \<Longrightarrow>
   msgs = map fragment_message (fr # frs) \<Longrightarrow>
   flushes_of (batchKey_of c s)
       (run (map (fragment_event c s) (fr # frs)) (run evs initial_scheduler))
     = flushes_of (batchKey_of c s) (run evs initial_scheduler)
   \<and> flushes_of (batchKey_of c s)
       (advance T (run (map (fragment_event c s) (fr # frs)) (run evs initial_scheduler)))
     = flushes_of (batchKey_of c s) (run evs initial_scheduler) @
       [\<lparr>f_batchKey = batchKey_of c s, f_firedAt = T, f_messages = msgs,
         f_finalMessage =
           (if bm_type (last msgs) = ImageKind
               \<and> join NN (map bm_content (filter (\<lambda>m. bm_type m = TextKind) msgs)) = []
            then join NN (map bm_content (filter (\<lambda>m. bm_type m = ImageKind) msgs))
            else spec_combined msgs)\<rparr>]
   \<and> pendingMessages
       (advance T (run (map (fragment_event c s) (fr # frs)) (run evs initial_scheduler)))
       (batchKey_of c s) = None"
proof -
  let ?k = "batchKey_of c s"
  let ?st0 = "run evs initial_scheduler"
  let ?st1 = "advance (fr_at fr) ?st0"
  let ?st2 = "step (fragment_event c s fr) ?st0"
  let ?st3 = "run (map (fragment_event c s) frs) ?st2"
  assume none: "pendingMessages ?st0 ?k = None"
    and le: "clock ?st0 \<le> fr_at fr"
    and quiet: "within_quiet_period (fr_at fr) frs"
    and late: "fr_at (last (fr # frs)) + MESSAGE_BATCH_DELAY \<le> T"
    and msgs: "msgs = map fragment_message (fr # frs)"
  have inv0: "sched_inv ?st0"
    by (rule sched_inv_reachable)
  have inv1: "sched_inv ?st1"
    using inv0 by (rule sched_inv_advance)
  have st2: "?st2 = addMessageToBatch c s (fr_id fr) (fr_type fr) (fr_content fr)
                      (handler_processFn (fr_type fr)) ?st1"
    by (simp add: fragment_event_def)
  have c1: "clock ?st1 = fr_at fr"
    using le by simp
  have "timers_of ?k ?st0 = []"
    using inv0 none by (rule timers_of_none)
  then have quietk: "\<forall>t \<in> set (timers_of ?k ?st0). \<not> t_fireAt t \<le> max (fr_at fr) (clock ?st0)"
    by simp
  have none1: "pendingMessages ?st1 ?k = None"
    using advance_not_due(1) [OF quietk] none by simp
  have fl1: "flushes_of ?k ?st1 = flushes_of ?k ?st0"
    using quietk by (rule advance_not_due)
  have msg: "\<lparr>bm_id = fr_id fr, bm_type = fr_type fr, bm_content = fr_content fr,
              bm_timestamp = clock ?st1\<rparr> = fragment_message fr"
    by (simp only: c1 fragment_message_def)
  have hb2: "has_batch ?k [fragment_message fr] (clock ?st2 + MESSAGE_BATCH_DELAY)
               (handler_processFn (fr_type fr)) ?st2"
    using add_has_batch [OF inv1, of c s "fr_id fr" "fr_type fr" "fr_content fr"
            "handler_processFn (fr_type fr)"]
    unfolding st2 none1 msg by simp
  have inv2: "sched_inv ?st2"
    unfolding st2 using inv1 by (rule sched_inv_add)
  have c2: "clock ?st2 = fr_at fr"
    unfolding st2 using c1 by simp
  have fl2: "flushes_of ?k ?st2 = flushes_of ?k ?st0"
    unfolding st2 using fl1 by (simp add: flushes_of_def)
  have quiet2: "within_quiet_period (clock ?st2) frs"
    using quiet c2 by simp
  note R = run_fragments [OF inv2 hb2 quiet2]
  have run_eq: "run (map (fragment_event c s) (fr # frs)) ?st0 = ?st3"
    by (simp add: run_Cons)
  have c3: "clock ?st3 = fr_at (last (fr # frs))"
    using R [THEN conjunct2, THEN conjunct2, THEN conjunct1] c2 by simp
  have pf3: "(if frs = [] then handler_processFn (fr_type fr)
              else handler_processFn (fr_type (last frs)))
               = handler_processFn (bm_type (last msgs))"
    unfolding msgs by (cases "frs = []") (simp_all add: last_map fragment_message_def)
  have msgs': "[fragment_message fr] @ map fragment_message frs = msgs"
    unfolding msgs by simp
  have hb3: "has_batch ?k msgs (clock ?st3 + MESSAGE_BATCH_DELAY)
               (handler_processFn (bm_type (last msgs))) ?st3"
    using R [THEN conjunct1] unfolding pf3 msgs' .
  have fl3: "flushes_of ?k ?st3 = flushes_of ?k ?st0"
    using R [THEN conjunct2, THEN conjunct1] fl2 by simp
  have mx: "max T (clock ?st3) = T"
    using late c3 by simp
  have due: "clock ?st3 + MESSAGE_BATCH_DELAY \<le> max T (clock ?st3)"
    using late c3 by simp
  have ne: "msgs \<noteq> []"
    unfolding msgs by simp
  have fire: "flushes_of ?k (advance T ?st3) = flushes_of ?k ?st0 @
       [\<lparr>f_batchKey = ?k, f_firedAt = T, f_messages = msgs,
         f_finalMessage = finalMessage_of (handler_processFn (bm_type (last msgs))) msgs\<rparr>]"
    using has_batch_fires(1) [OF hb3 due] unfolding mx fl3 .
  have gone: "pendingMessages (advance T ?st3) ?k = None"
    using hb3 due by (rule has_batch_fires)
  show ?thesis
    unfolding run_eq using fl3 fire gone finalMessage_of_handler [OF ne] by simp
qed

theorem coalesced_flush_witness:
  "pendingMessages (run [] initial_scheduler) (batchKey_of ''c'' ''s'') = None
   \<and> within_quiet_period 0
        [\<lparr>fr_at = 400, fr_id = ''m2'', fr_type = ImageKind, fr_content = ''img''\<rparr>,
         \<lparr>fr_at = 900, fr_id = ''m3'', fr_type = TextKind, fr_content = ''world''\<rparr>]
   \<and> flushes_of (batchKey_of ''c'' ''s'')
       (advance 1900
          (run (map (fragment_event ''c'' ''s'')
                  [\<lparr>fr_at = 0, fr_id = ''m1'', fr_type = TextKind, fr_content = ''hello''\<rparr>,
                   \<lparr>fr_at = 400, fr_id = ''m2'', fr_type = ImageKind, fr_content = ''img''\<rparr>,
                   \<lparr>fr_at = 900, fr_id = ''m3'', fr_type = TextKind, fr_content = ''world''\<rparr>])
             (run [] initial_scheduler)))
     = [\<lparr>f_batchKey = ''c-s'', f_firedAt = 1900,
         f_messages =
           [\<lparr>bm_id = ''m1'', bm_type = TextKind, bm_content = ''hello'', bm_timestamp = 0\<rparr>,
            \<lparr>bm_id = ''m2'', bm_type = ImageKind, bm_content = ''img'', bm_timestamp = 400\<rparr>,
            \<lparr>bm_id = ''m3'', bm_type = TextKind, bm_content = ''world'', bm_timestamp = 900\<rparr>],
         f_finalMessage = ''hello'' @ NN @ ''world'' @ NN @ ''img''\<rparr>]"
proof -
  let ?f1 = "\<lparr>fr_at = 0, fr_id = ''m1'', fr_type = TextKind, fr_content = ''hello''\<rparr>"
  let ?f2 = "\<lparr>fr_at = 400, fr_id = ''m2'', fr_type = ImageKind, fr_content = ''img''\<rparr>"
  let ?f3 = "\<lparr>fr_at = 900, fr_id = ''m3'', fr_type = TextKind, fr_content = ''world''\<rparr>"
  have h1: "pendingMessages (run [] initial_scheduler) (batchKey_of ''c'' ''s'') = None"
    by (simp add: run_Nil initial_scheduler_def)
  have h2: "clock (run [] initial_scheduler) \<le> fr_at ?f1"
    by (simp add: run_Nil initial_scheduler_def)
  have h3: "within_quiet_period (fr_at ?f1) [?f2, ?f3]"
    by (simp add: MESSAGE_BATCH_DELAY_def)
  have h4: "fr_at (last (?f1 # [?f2, ?f3])) + MESSAGE_BATCH_DELAY \<le> 1900"
    by (simp add: MESSAGE_BATCH_DELAY_def)
  note T = coalesced_flush [OF h1 h2 h3 h4 refl, THEN conjunct2, THEN conjunct1]
  have fl0: "flushes_of k (run [] initial_scheduler) = []" for k
    by (simp add: run_Nil initial_scheduler_def flushes_of_def)
  show ?thesis
    using h1 h3 T
    by (simp add: fl0 fragment_message_def spec_combined_def batchKey_of_def)
qed

text \<open>
  C2. In every state the scheduler can reach, every key has at most one live timer, and
  it has one exactly when it has a pending batch (the table holds at most one batch per
  key). Adding a fragment for a key that has a pending batch keeps the batch's array and
  appends the fragment to it, cancels the batch's timer, and arms a new timer that is due
  one batch delay (1000 milliseconds) after the moment of the add; the same timer is
  armed when the key had no batch. As long as less than the batch delay has passed since
  that add, the batch is not flushed and stays pending. Every flush that has occurred
  took place at least one batch delay after the last fragment of its batch was added.
\<close>

theorem debounce_from_last_fragment:
  "st = run evs initial_scheduler \<Longrightarrow>
   k = batchKey_of c s \<Longrightarrow>
   st' = addMessageToBatch c s i ty content pf st \<Longrightarrow>
   (\<forall>key. length (timers_of key st) \<le> 1
       \<and> (pendingMessages st key = None \<longleftrightarrow> timers_of key st = []))
   \<and> (\<forall>e. pendingMessages st k = Some e \<longrightarrow>
        (\<exists>p'. pendingMessages st' k = Some p' \<and> pm_messages p' = pm_messages e)
        \<and> arrays st' (pm_messages e) = arrays st (pm_messages e) @
             [\<lparr>bm_id = i, bm_type = ty, bm_content = content, bm_timestamp = clock st\<rparr>]
        \<and> pm_timeout e \<in> t_handle ` set (timers st)
        \<and> pm_timeout e \<notin> t_handle ` set (timers st'))
   \<and> (\<exists>t. timers_of k st' = [t] \<and> t_fireAt t = clock st + MESSAGE_BATCH_DELAY
          \<and> t_handle t = nextHandle st \<and> t_processFn t = pf)
   \<and> MESSAGE_BATCH_DELAY = 1000
   \<and> (\<forall>now'. now' < clock st + MESSAGE_BATCH_DELAY \<longrightarrow>
        flushes_of k (advance now' st') = flushes_of k st'
        \<and> pendingMessages (advance now' st') k = pendingMessages st' k
        \<and> pendingMessages st' k \<noteq> None)
   \<and> (\<forall>f \<in> set (flushed st). f_messages f \<noteq> []
        \<and> bm_timestamp (last (f_messages f)) + MESSAGE_BATCH_DELAY \<le> f_firedAt f)"
proof -
  assume st: "st = run evs initial_scheduler" and k: "k = batchKey_of c s"
    and st': "st' = addMessageToBatch c s i ty content pf st"
  have inv: "sched_inv st"
    unfolding st by (rule sched_inv_reachable)
  have inv': "sched_inv st'"
    unfolding st' using inv by (rule sched_inv_add)
  have one: "length (timers_of key st) \<le> 1
       \<and> (pendingMessages st key = None \<longleftrightarrow> timers_of key st = [])" for key
  proof (cases "pendingMessages st key")
    case None
    then show ?thesis
      using timers_of_none [OF inv None] by simp
  next
    case (Some p)
    then show ?thesis
      using timers_of_some [OF inv Some] by auto
  qed
  let ?msg = "\<lparr>bm_id = i, bm_type = ty, bm_content = content, bm_timestamp = clock st\<rparr>"
  have hb: "has_batch k
              ((case pendingMessages st k of None \<Rightarrow> [] | Some e \<Rightarrow> arrays st (pm_messages e))
               @ [?msg])
              (clock st + MESSAGE_BATCH_DELAY) pf st'"
    unfolding k st' using inv by (rule add_has_batch)
  then obtain p t where pt: "pendingMessages st' k = Some p" "timers_of k st' = [t]"
      "t_fireAt t = clock st + MESSAGE_BATCH_DELAY" "t_processFn t = pf"
    unfolding has_batch_def by blast
  have "timers_of k st' =
          [\<lparr>t_handle = nextHandle st, t_fireAt = clock st + MESSAGE_BATCH_DELAY,
            t_batchKey = k,
            t_messages = (case pendingMessages st k of
                            None \<Rightarrow> nextRef st | Some e \<Rightarrow> pm_messages e),
            t_processFn = pf\<rparr>]"
    unfolding timers_of_def st' k add_timers [OF inv] by simp
  then have armed: "\<exists>t. timers_of k st' = [t] \<and> t_fireAt t = clock st + MESSAGE_BATCH_DELAY
          \<and> t_handle t = nextHandle st \<and> t_processFn t = pf"
    by simp
  have existing: "(\<exists>p'. pendingMessages st' k = Some p' \<and> pm_messages p' = pm_messages e)
        \<and> arrays st' (pm_messages e) = arrays st (pm_messages e) @ [?msg]
        \<and> pm_timeout e \<in> t_handle ` set (timers st)
        \<and> pm_timeout e \<notin> t_handle ` set (timers st')"
    if e: "pendingMessages st k = Some e" for e
  proof -
    have e': "pendingMessages st (batchKey_of c s) = Some e"
      using e k by simp
    have a: "\<exists>p'. pendingMessages st' k = Some p' \<and> pm_messages p' = pm_messages e"
      unfolding st' k by (simp add: add_pending e')
    have b: "arrays st' (pm_messages e) = arrays st (pm_messages e) @ [?msg]"
      using add_arrays_batch [of c s i ty content pf st] unfolding st' by (simp add: e')
    obtain tk where tk: "tk \<in> set (timers st)" "t_handle tk = pm_timeout e"
      using timers_of_some [OF inv e] by blast
    have c: "pm_timeout e \<in> t_handle ` set (timers st)"
      using tk by force
    have below: "pm_timeout e < nextHandle st"
      using inv_handles_below [OF inv tk(1)] tk(2) by simp
    have "set (filter (\<lambda>t. t_batchKey t \<noteq> batchKey_of c s) (timers st))
            = set (clearTimeout (pm_timeout e) (timers st))"
      using clear_existing [OF inv e'] by simp
    then have "pm_timeout e \<notin> t_handle ` set (filter (\<lambda>t. t_batchKey t \<noteq> batchKey_of c s) (timers st))"
      by (auto simp: clearTimeout_def)
    then have d: "pm_timeout e \<notin> t_handle ` set (timers st')"
      unfolding st' add_timers [OF inv] using below by auto
    show ?thesis
      using a b c d by blast
  qed
  have quiet: "flushes_of k (advance now' st') = flushes_of k st'
        \<and> pendingMessages (advance now' st') k = pendingMessages st' k
        \<and> pendingMessages st' k \<noteq> None"
    if "now' < clock st + MESSAGE_BATCH_DELAY" for now'
  proof -
    have "clock st' = clock st"
      unfolding st' by simp
    then have "max now' (clock st') < clock st + MESSAGE_BATCH_DELAY"
      using that by (simp add: MESSAGE_BATCH_DELAY_def)
    then have keep: "\<forall>t \<in> set (timers_of k st'). \<not> t_fireAt t \<le> max now' (clock st')"
      using pt by (simp add: not_le)
    show ?thesis
      using advance_not_due(1) [OF keep] advance_not_due(2) [OF keep] pt(1) by simp
  qed
  have log: "\<forall>f \<in> set (flushed st). f_messages f \<noteq> []
        \<and> bm_timestamp (last (f_messages f)) + MESSAGE_BATCH_DELAY \<le> f_firedAt f"
    using inv_flushed [OF inv] by blast
  show ?thesis
    using one existing armed quiet log MESSAGE_BATCH_DELAY_def by blast
qed

theorem debounce_from_last_fragment_witness:
  "pendingMessages (run [Add 0 ''c'' ''s'' ''m1'' TextKind ''hello'' TextFlush] initial_scheduler)
     (batchKey_of ''c'' ''s'') \<noteq> None
   \<and> (\<exists>t. timers_of (batchKey_of ''c'' ''s'')
         (addMessageToBatch ''c'' ''s'' ''m2'' ImageKind ''img'' AttachmentFlush
            (run [Add 0 ''c'' ''s'' ''m1'' TextKind ''hello'' TextFlush] initial_scheduler)) = [t]
        \<and> t_fireAt t = 1000 \<and> t_handle t = 1 \<and> t_processFn t = AttachmentFlush)
   \<and> flushes_of (batchKey_of ''c'' ''s'')
        (advance 999
          (addMessageToBatch ''c'' ''s'' ''m2'' ImageKind ''img'' AttachmentFlush
            (run [Add 0 ''c'' ''s'' ''m1'' TextKind ''hello'' TextFlush] initial_scheduler))) = []"
proof -
  let ?st = "run [Add 0 ''c'' ''s'' ''m1'' TextKind ''hello'' TextFlush] initial_scheduler"
  let ?st' = "addMessageToBatch ''c'' ''s'' ''m2'' ImageKind ''img'' AttachmentFlush ?st"
  note T = debounce_from_last_fragment [OF refl refl refl,
      of "[Add 0 ''c'' ''s'' ''m1'' TextKind ''hello'' TextFlush]" "''c''" "''s''"
         "''m2''" ImageKind "''img''" AttachmentFlush]
  have ev: "clock ?st = 0" "nextHandle ?st = 1" "flushed ?st = []"
    "pendingMessages ?st (batchKey_of ''c'' ''s'') \<noteq> None"
    by (simp_all add: run_def addMessageToBatch_def advance_def initial_scheduler_def
          batchKey_of_def Let_def)
  have armed: "\<exists>t. timers_of (batchKey_of ''c'' ''s'') ?st' = [t]
        \<and> t_fireAt t = 1000 \<and> t_handle t = 1 \<and> t_processFn t = AttachmentFlush"
    using T [THEN conjunct2, THEN conjunct2, THEN conjunct1] ev
    by (simp add: MESSAGE_BATCH_DELAY_def)
  have h: "999 < clock ?st + MESSAGE_BATCH_DELAY"
    using ev by (simp add: MESSAGE_BATCH_DELAY_def)
  have "flushes_of (batchKey_of ''c'' ''s'') (advance 999 ?st')
          = flushes_of (batchKey_of ''c'' ''s'') ?st'"
    using T [THEN conjunct2, THEN conjunct2, THEN conjunct2, THEN conjunct2, THEN conjunct1,
             THEN spec, of 999] h by blast
  also have "\<dots> = []"
    using ev by (simp add: flushes_of_def)
  finally show ?thesis
    using ev armed by simp
qed

text \<open>
  C3, as stated: three observations with identical sets of message identifiers answer
  false, false, true, and a differing set on the third call answers false, false, false.
  The check compares fingerprints, the sorted identifiers joined by a bar, and two
  different sets can have one fingerprint: after two observations of the single
  identifier \<open>a|b\<close>, a third observation of the two identifiers \<open>a\<close> and \<open>b\<close> has
  the same fingerprint and answers true. In the other direction, a list that repeats an
  identifier has the same set of identifiers as the list without the repetition and
  another fingerprint: the observations \<open>a\<close>; \<open>a\<close>, \<open>a\<close>; \<open>a\<close> answer false, false,
  false.
\<close>

theorem fingerprint_collision_counterexample:
  "observations ''c''
     [[\<lparr>m_id = ''a|b'', m_senderInboxId = ''u'', m_content = ''x''\<rparr>],
      [\<lparr>m_id = ''a|b'', m_senderInboxId = ''u'', m_content = ''x''\<rparr>],
      [\<lparr>m_id = ''a'', m_senderInboxId = ''u'', m_content = ''x''\<rparr>,
       \<lparr>m_id = ''b'', m_senderInboxId = ''u'', m_content = ''y''\<rparr>]] Map.empty
     = [False, False, True]
   \<and> set (map m_id [\<lparr>m_id = ''a'', m_senderInboxId = ''u'', m_content = ''x''\<rparr>,
                      \<lparr>m_id = ''b'', m_senderInboxId = ''u'', m_content = ''y''\<rparr>])
       \<noteq> set (map m_id [\<lparr>m_id = ''a|b'', m_senderInboxId = ''u'', m_content = ''x''\<rparr>])
   \<and> observations ''c''
     [[\<lparr>m_id = ''a'', m_senderInboxId = ''u'', m_content = ''x''\<rparr>],
      [\<lparr>m_id = ''a'', m_senderInboxId = ''u'', m_content = ''x''\<rparr>,
       \<lparr>m_id = ''a'', m_senderInboxId = ''u'', m_content = ''x''\<rparr>],
      [\<lparr>m_id = ''a'', m_senderInboxId = ''u'', m_content = ''x''\<rparr>]] Map.empty
     = [False, False, False]
   \<and> set (map m_id [\<lparr>m_id = ''a'', m_senderInboxId = ''u'', m_content = ''x''\<rparr>,
                      \<lparr>m_id = ''a'', m_senderInboxId = ''u'', m_content = ''x''\<rparr>])
       = set (map m_id [\<lparr>m_id = ''a'', m_senderInboxId = ''u'', m_content = ''x''\<rparr>])"
  by (simp add: checkMessageArray_def sortedMessageIds_def REPEAT_THRESHOLD_def Let_def)

text \<open>
  C3, amended. The staleness check on a conversation: the first observation stores the
  fingerprint with a repeat count of one and answers false; an observation whose
  fingerprint equals the stored one counts one up and answers true exactly when the count
  has reached three, on that call and on every later identical one; an observation with
  another fingerprint stores it, sets the count back to one and answers false. Message
  lists with the same identifiers the same number of times (in any order) have the same
  fingerprint, so that three such observations of a fresh conversation answer false,
  false, true (and true from then on), and a third one with a differing fingerprint
  answers false, false, false. When the identifiers are not empty and do not contain the
  bar, every third list that differs in its identifiers or their multiplicities has a
  differing fingerprint.
\<close>

theorem checkMessageArray_staleness:
  "(tbl c = None \<longrightarrow>
      checkMessageArray c ms tbl =
        (False, tbl(c \<mapsto> \<lparr>hash = fingerprint ms, repeatCount = 1,
                            lastMessageIds = sortedMessageIds ms\<rparr>)))
   \<and> (tbl c = Some r \<and> hash r = fingerprint ms \<longrightarrow>
      checkMessageArray c ms tbl =
        (3 \<le> repeatCount r + 1, tbl(c \<mapsto> r\<lparr>repeatCount := repeatCount r + 1\<rparr>)))
   \<and> (tbl c = Some r \<and> hash r \<noteq> fingerprint ms \<longrightarrow>
      checkMessageArray c ms tbl =
        (False, tbl(c \<mapsto> r\<lparr>hash := fingerprint ms, repeatCount := 1,
                             lastMessageIds := sortedMessageIds ms\<rparr>)))
   \<and> (mset (map m_id ms') = mset (map m_id ms) \<longrightarrow> fingerprint ms' = fingerprint ms)
   \<and> (tbl c = None \<and> (\<forall>m \<in> set mss. mset (map m_id m) = mset (map m_id ms)) \<longrightarrow>
      observations c (ms # mss) tbl = map (\<lambda>i. 2 \<le> i) [0..<Suc (length mss)])
   \<and> (tbl c = None \<and> mset (map m_id ms') = mset (map m_id ms)
        \<and> fingerprint ms3 \<noteq> fingerprint ms \<longrightarrow>
      observations c [ms, ms', ms3] tbl = [False, False, False])
   \<and> (tbl c = None \<and> mset (map m_id ms') = mset (map m_id ms)
        \<and> (\<forall>m \<in> set ms \<union> set ms3. m_id m \<noteq> [] \<and> CHR ''|'' \<notin> set (m_id m))
        \<and> mset (map m_id ms3) \<noteq> mset (map m_id ms) \<longrightarrow>
      observations c [ms, ms', ms3] tbl = [False, False, False])"
proof (intro conjI impI)
  assume "tbl c = None"
  then show "checkMessageArray c ms tbl =
        (False, tbl(c \<mapsto> \<lparr>hash = fingerprint ms, repeatCount = 1,
                            lastMessageIds = sortedMessageIds ms\<rparr>))"
    by (rule check_first)
next
  assume "tbl c = Some r \<and> hash r = fingerprint ms"
  then show "checkMessageArray c ms tbl =
        (3 \<le> repeatCount r + 1, tbl(c \<mapsto> r\<lparr>repeatCount := repeatCount r + 1\<rparr>))"
    by (simp add: check_same)
next
  assume "tbl c = Some r \<and> hash r \<noteq> fingerprint ms"
  then show "checkMessageArray c ms tbl =
        (False, tbl(c \<mapsto> r\<lparr>hash := fingerprint ms, repeatCount := 1,
                             lastMessageIds := sortedMessageIds ms\<rparr>))"
    by (simp add: check_differs)
next
  assume "mset (map m_id ms') = mset (map m_id ms)"
  then show "fingerprint ms' = fingerprint ms"
    by (rule fingerprint_mset)
next
  assume "tbl c = None \<and> (\<forall>m \<in> set mss. mset (map m_id m) = mset (map m_id ms))"
  then show "observations c (ms # mss) tbl = map (\<lambda>i. 2 \<le> i) [0..<Suc (length mss)]"
    using observations_identical [of tbl c mss ms] by blast
next
  assume "tbl c = None \<and> mset (map m_id ms') = mset (map m_id ms)
        \<and> fingerprint ms3 \<noteq> fingerprint ms"
  then show "observations c [ms, ms', ms3] tbl = [False, False, False]"
    using observations_third_differs [of tbl c ms' ms ms3] by blast
next
  assume a: "tbl c = None \<and> mset (map m_id ms') = mset (map m_id ms)
        \<and> (\<forall>m \<in> set ms \<union> set ms3. m_id m \<noteq> [] \<and> CHR ''|'' \<notin> set (m_id m))
        \<and> mset (map m_id ms3) \<noteq> mset (map m_id ms)"
  have "fingerprint ms3 \<noteq> fingerprint ms"
  proof
    assume "fingerprint ms3 = fingerprint ms"
    then have "mset (map m_id ms3) = mset (map m_id ms)"
      using a by (intro fingerprint_inj) auto
    then show False
      using a by simp
  qed
  then show "observations c [ms, ms', ms3] tbl = [False, False, False]"
    using a observations_third_differs [of tbl c ms' ms ms3] by blast
qed

theorem checkMessageArray_staleness_witness:
  "observations ''c''
     [[\<lparr>m_id = ''m1'', m_senderInboxId = ''u'', m_content = ''x''\<rparr>,
       \<lparr>m_id = ''m2'', m_senderInboxId = ''u'', m_content = ''y''\<rparr>],
      [\<lparr>m_id = ''m2'', m_senderInboxId = ''u'', m_content = ''y''\<rparr>,
       \<lparr>m_id = ''m1'', m_senderInboxId = ''u'', m_content = ''x''\<rparr>],
      [\<lparr>m_id = ''m1'', m_senderInboxId = ''u'', m_content = ''x''\<rparr>,
       \<lparr>m_id = ''m2'', m_senderInboxId = ''u'', m_content = ''y''\<rparr>],
      [\<lparr>m_id = ''m1'', m_senderInboxId = ''u'', m_content = ''x''\<rparr>,
       \<lparr>m_id = ''m2'', m_senderInboxId = ''u'', m_content = ''y''\<rparr>]] Map.empty
   = [False, False, True, True]
   \<and> observations ''c''
     [[\<lparr>m_id = ''m1'', m_senderInboxId = ''u'', m_content = ''x''\<rparr>],
      [\<lparr>m_id = ''m1'', m_senderInboxId = ''u'', m_content = ''x''\<rparr>],
      [\<lparr>m_id = ''m1'', m_senderInboxId = ''u'', m_content = ''x''\<rparr>,
       \<lparr>m_id = ''m2'', m_senderInboxId = ''u'', m_content = ''y''\<rparr>]] Map.empty
   = [False, False, False]"
proof -
  let ?a = "\<lparr>m_id = ''m1'', m_senderInboxId = ''u'', m_content = ''x''\<rparr>"
  let ?b = "\<lparr>m_id = ''m2'', m_senderInboxId = ''u'', m_content = ''y''\<rparr>"
  let ?r = "\<lparr>hash = [], repeatCount = 1, lastMessageIds = []\<rparr>"
  note T1 = checkMessageArray_staleness
      [of Map.empty "''c''" "[?a, ?b]" ?r "[?a, ?b]" "[[?b, ?a], [?a, ?b], [?a, ?b]]" "[?a, ?b]"]
  note T2 = checkMessageArray_staleness
      [of Map.empty "''c''" "[?a]" ?r "[?a]" "[]" "[?a, ?b]"]
  have h1: "Map.empty ''c'' = None \<and>
            (\<forall>m \<in> set [[?b, ?a], [?a, ?b], [?a, ?b]].
               mset (map m_id m) = mset (map m_id [?a, ?b]))"
    by simp
  have ne: "fingerprint [?a, ?b] \<noteq> fingerprint [?a]"
    by (simp add: fingerprint_def sortedMessageIds_def)
  have h2: "Map.empty ''c'' = None \<and> mset (map m_id [?a]) = mset (map m_id [?a])
            \<and> fingerprint [?a, ?b] \<noteq> fingerprint [?a]"
    using ne by simp
  have A: "observations ''c'' [[?a, ?b], [?b, ?a], [?a, ?b], [?a, ?b]] Map.empty
             = map (\<lambda>i. 2 \<le> i) [0..<Suc (length [[?b, ?a], [?a, ?b], [?a, ?b]])]"
    using T1 [THEN conjunct2, THEN conjunct2, THEN conjunct2, THEN conjunct2, THEN conjunct1] h1
    by (rule mp)
  have B: "observations ''c'' [[?a], [?a], [?a, ?b]] Map.empty = [False, False, False]"
    using T2 [THEN conjunct2, THEN conjunct2, THEN conjunct2, THEN conjunct2, THEN conjunct2,
              THEN conjunct1] h2
    by (rule mp)
  have "map (\<lambda>i. 2 \<le> i) [0..<Suc (length [[?b, ?a], [?a, ?b], [?a, ?b]])]
          = [False, False, True, True]"
    by (simp add: upt_conv_Cons)
  with A B show ?thesis by simp
qed

text \<open>
  C4. The claim: on every path that marks a message identifier as seen, a ledger of more
  than 1000 entries is pruned to its 500 most recent ones. The reply handler marks
  identifiers and never prunes: after replies with \<open>n\<close> different identifiers the
  ledger holds all \<open>n\<close> of them, 1001 for 1001 replies. The text handler does prune:
  the same 1001 identifiers, arriving as text messages, leave the 500 most recent ones.
\<close>

theorem reply_handler_never_prunes:
  "(\<forall>n. reply_marks (map (\<lambda>n. replicate n (CHR ''m'')) [0..<n]) []
          = map (\<lambda>n. replicate n (CHR ''m'')) [0..<n])
   \<and> length (reply_marks (map (\<lambda>n. replicate n (CHR ''m'')) [0..<1001]) []) = 1001
   \<and> text_marks (map (\<lambda>n. replicate n (CHR ''m'')) [0..<1001]) []
       = map (\<lambda>n. replicate n (CHR ''m'')) [501..<1001]"
proof -
  let ?id = "\<lambda>n. replicate n (CHR ''m'')"
  have all: "reply_marks (map ?id [0..<n]) [] = map ?id [0..<n]" for n
    using reply_marks_distinct [of "[]" "map ?id [0..<n]"] distinct_ids [of n] by simp
  have len: "length (reply_marks (map ?id [0..<1001]) []) = 1001"
    by (simp only: all length_map length_upt)
  have split: "map ?id [0..<1001] = map ?id [0..<1000] @ [?id 1000]"
    using upt_Suc_append [of 0 1000] by simp
  have d1000: "distinct ([] @ map ?id [0..<1000])"
    using distinct_ids [of 1000] by simp
  have first: "text_marks (map ?id [0..<1000]) [] = map ?id [0..<1000]"
    using text_marks_below_mark [OF d1000] by simp
  have d1001: "distinct (map ?id [0..<1000] @ [?id 1000])"
    using distinct_ids [of 1001] unfolding split .
  have last: "snd (text_dedup (?id 1000) (map ?id [0..<1000]))
                = slice_last 500 (map ?id [0..<1000] @ [?id 1000])"
    using d1001 by (rule text_dedup_prunes) simp
  have "slice_last 500 (map ?id [0..<1001]) = map ?id (drop 501 [0..<1001])"
    by (simp only: slice_last_def drop_map length_map length_upt) simp
  also have "drop 501 [0..<1001] = [501..<1001]"
    by (simp only: drop_upt) simp
  finally have sl: "slice_last 500 (map ?id [0..<1001]) = map ?id [501..<1001]" .
  have "text_marks (map ?id [0..<1001]) []
          = snd (text_dedup (?id 1000) (text_marks (map ?id [0..<1000]) []))"
    unfolding split by (simp add: text_marks_def)
  also have "\<dots> = slice_last 500 (map ?id [0..<1000] @ [?id 1000])"
    unfolding first by (rule last)
  also have "\<dots> = map ?id [501..<1001]"
    using sl unfolding split .
  finally have pruned: "text_marks (map ?id [0..<1001]) [] = map ?id [501..<1001]" .
  show ?thesis
    using all len pruned by blast
qed

text \<open>
  C5. The claim: in the group greeting flow the text sent is the backend's response, or
  the fixed fallback greeting when the backend call fails. In a group that was not
  greeted and whose history holds no message of the bot, with a backend call that fails
  (a rejected request, or a response whose success flag is false), the text handler
  sends the apology of \<^verbatim>\<open>processMessage\<close> as the greeting, not the fallback greeting;
  the conversation is marked greeted and the handler returns.
\<close>

theorem greeting_on_backend_failure_sends_apology:
  "g_sent (text_greeting_block
      \<lparr>apiUrl = ''http://backend'', defaultAgentId = ''agent1''\<rparr> None
      (\<lambda>u b. AxiosError ''Network Error'')
      \<lparr>agent_address = Some ''0xb07'', agent_inboxId = ''bot''\<rparr>
      \<lparr>ev_messageId = ''m1'', ev_content = ''hi all'', ev_conversationId = ''g1'',
       ev_isGroup = True,
       ev_messages = (\<lambda>limit. Inr [\<lparr>m_id = ''m1'', m_senderInboxId = ''alice'',
                                        m_content = ''hi all''\<rparr>]),
       ev_sendOk = (\<lambda>t. True)\<rparr>
      \<lparr>gg_firestore = \<lparr>fs_docs = {}, fs_available = True\<rparr>, gg_cache = {}\<rparr>
      Map.empty)
     = [TECHNICAL_DIFFICULTIES]
   \<and> g_sent (text_greeting_block
      \<lparr>apiUrl = ''http://backend'', defaultAgentId = ''agent1''\<rparr> None
      (\<lambda>u b. AxiosResponse \<lparr>r_success = False, r_data = None, r_error = Some ''overloaded''\<rparr>)
      \<lparr>agent_address = Some ''0xb07'', agent_inboxId = ''bot''\<rparr>
      \<lparr>ev_messageId = ''m1'', ev_content = ''hi all'', ev_conversationId = ''g1'',
       ev_isGroup = True,
       ev_messages = (\<lambda>limit. Inr [\<lparr>m_id = ''m1'', m_senderInboxId = ''alice'',
                                        m_content = ''hi all''\<rparr>]),
       ev_sendOk = (\<lambda>t. True)\<rparr>
      \<lparr>gg_firestore = \<lparr>fs_docs = {}, fs_available = True\<rparr>, gg_cache = {}\<rparr>
      Map.empty)
     = [TECHNICAL_DIFFICULTIES]
   \<and> TECHNICAL_DIFFICULTIES \<noteq> FALLBACK_GREETING
   \<and> g_outcome (text_greeting_block
      \<lparr>apiUrl = ''http://backend'', defaultAgentId = ''agent1''\<rparr> None
      (\<lambda>u b. AxiosError ''Network Error'')
      \<lparr>agent_address = Some ''0xb07'', agent_inboxId = ''bot''\<rparr>
      \<lparr>ev_messageId = ''m1'', ev_content = ''hi all'', ev_conversationId = ''g1'',
       ev_isGroup = True,
       ev_messages = (\<lambda>limit. Inr [\<lparr>m_id = ''m1'', m_senderInboxId = ''alice'',
                                        m_content = ''hi all''\<rparr>]),
       ev_sendOk = (\<lambda>t. True)\<rparr>
      \<lparr>gg_firestore = \<lparr>fs_docs = {}, fs_available = True\<rparr>, gg_cache = {}\<rparr>
      Map.empty)
     = GreetingReturn
   \<and> ''g1'' \<in> gg_cache (g_greeted (text_greeting_block
      \<lparr>apiUrl = ''http://backend'', defaultAgentId = ''agent1''\<rparr> None
      (\<lambda>u b. AxiosError ''Network Error'')
      \<lparr>agent_address = Some ''0xb07'', agent_inboxId = ''bot''\<rparr>
      \<lparr>ev_messageId = ''m1'', ev_content = ''hi all'', ev_conversationId = ''g1'',
       ev_isGroup = True,
       ev_messages = (\<lambda>limit. Inr [\<lparr>m_id = ''m1'', m_senderInboxId = ''alice'',
                                        m_content = ''hi all''\<rparr>]),
       ev_sendOk = (\<lambda>t. True)\<rparr>
      \<lparr>gg_firestore = \<lparr>fs_docs = {}, fs_available = True\<rparr>, gg_cache = {}\<rparr>
      Map.empty))"
proof -
  let ?svc = "\<lparr>apiUrl = ''http://backend'', defaultAgentId = ''agent1''\<rparr>"
  let ?p1 = "\<lambda>(u::string) (b::backend_message_request). AxiosError ''Network Error''"
  let ?p2 = "\<lambda>(u::string) (b::backend_message_request).
               AxiosResponse \<lparr>r_success = False, r_data = None, r_error = Some ''overloaded''\<rparr>"
  have b1: "processMessage ?svc None ?p1 GREETING_PROMPT ''0xb07'' ''g1'' None
              = Inr TECHNICAL_DIFFICULTIES"
    by (rule processMessage_failed) (simp add: backend_failed_def)
  have b2: "processMessage ?svc None ?p2 GREETING_PROMPT ''0xb07'' ''g1'' None
              = Inr TECHNICAL_DIFFICULTIES"
    by (rule processMessage_failed) (simp add: backend_failed_def)
  have ne: "TECHNICAL_DIFFICULTIES \<noteq> FALLBACK_GREETING"
    by (simp add: TECHNICAL_DIFFICULTIES_def FALLBACK_GREETING_def)
  show ?thesis
    using ne
    by (simp add: text_greeting_block_def hasGreeted_def markAsGreeted_def check_first
          send_greeting_def or_else_def b1 b2)
qed

text \<open>
  C6, as stated: after two upserts of one thread identifier with two conversation
  identifiers, the stored \<^verbatim>\<open>lastActivity\<close> is strictly newer than the one stored by
  the first upsert. Two upserts within the same millisecond read the same clock value,
  and the two stored times are equal.
\<close>

theorem addMapping_same_millisecond_counterexample:
  "map_option cm_lastActivity
     (getMapping ''t1'' (addMapping 1000 ''t1'' ''c1'' ''0xa11ce'' None [])) = Some 1000
   \<and> map_option cm_lastActivity
     (getMapping ''t1''
        (addMapping 1000 ''t1'' ''c2'' ''0xa11ce'' None
           (addMapping 1000 ''t1'' ''c1'' ''0xa11ce'' None []))) = Some 1000
   \<and> \<not> ((1000 :: int) < 1000)"
  by (simp add: getMapping_def addMapping_def)

text \<open>
  C6, amended. After two upserts of one thread identifier, at clock readings \<open>now1\<close>
  and then \<open>now2\<close>, the store holds exactly one mapping for the thread identifier; it
  has the conversation identifier of the later upsert and \<open>now2\<close> as its
  \<^verbatim>\<open>lastActivity\<close>, where the first upsert had stored \<open>now1\<close>: strictly newer exactly
  when the clock has advanced between the two upserts.
\<close>

theorem addMapping_twice:
  "distinct (map fst m) \<Longrightarrow>
   filter (\<lambda>e. fst e = t) (addMapping now2 t c2 w2 a2 (addMapping now1 t c1 w1 a1 m))
     = [(t, \<lparr>cm_threadId = t, cm_conversationId = c2, cm_walletAddress = w2,
             cm_lastActivity = now2, cm_agentId = a2\<rparr>)]
   \<and> getMapping t (addMapping now2 t c2 w2 a2 (addMapping now1 t c1 w1 a1 m))
     = Some \<lparr>cm_threadId = t, cm_conversationId = c2, cm_walletAddress = w2,
             cm_lastActivity = now2, cm_agentId = a2\<rparr>
   \<and> getMapping t (addMapping now1 t c1 w1 a1 m)
     = Some \<lparr>cm_threadId = t, cm_conversationId = c1, cm_walletAddress = w1,
             cm_lastActivity = now1, cm_agentId = a1\<rparr>
   \<and> (\<forall>v1 v2. getMapping t (addMapping now1 t c1 w1 a1 m) = Some v1
        \<and> getMapping t (addMapping now2 t c2 w2 a2 (addMapping now1 t c1 w1 a1 m)) = Some v2
        \<longrightarrow> (cm_lastActivity v1 < cm_lastActivity v2 \<longleftrightarrow> now1 < now2))
   \<and> distinct (map fst (addMapping now2 t c2 w2 a2 (addMapping now1 t c1 w1 a1 m)))"
proof -
  assume d: "distinct (map fst m)"
  have d1: "distinct (map fst (addMapping now1 t c1 w1 a1 m))"
    unfolding addMapping_def using d by (rule distinct_map_set)
  have d2: "distinct (map fst (addMapping now2 t c2 w2 a2 (addMapping now1 t c1 w1 a1 m)))"
    unfolding addMapping_def [of now2] using d1 by (rule distinct_map_set)
  have one: "filter (\<lambda>e. fst e = t) (addMapping now2 t c2 w2 a2 (addMapping now1 t c1 w1 a1 m))
     = [(t, \<lparr>cm_threadId = t, cm_conversationId = c2, cm_walletAddress = w2,
             cm_lastActivity = now2, cm_agentId = a2\<rparr>)]"
    unfolding addMapping_def [of now2] using d1 by (rule entries_of_key_map_set)
  have g1: "getMapping t (addMapping now1 t c1 w1 a1 m)
     = Some \<lparr>cm_threadId = t, cm_conversationId = c1, cm_walletAddress = w1,
             cm_lastActivity = now1, cm_agentId = a1\<rparr>"
    by (simp add: getMapping_def addMapping_def map_of_map_set)
  have g2: "getMapping t (addMapping now2 t c2 w2 a2 (addMapping now1 t c1 w1 a1 m))
     = Some \<lparr>cm_threadId = t, cm_conversationId = c2, cm_walletAddress = w2,
             cm_lastActivity = now2, cm_agentId = a2\<rparr>"
    by (simp add: getMapping_def addMapping_def map_of_map_set)
  show ?thesis
    using one d2 by (simp add: g1 g2)
qed

theorem addMapping_twice_witness:
  "distinct (map fst ([] :: conversationMappings))
   \<and> addMapping 2000 ''t1'' ''c2'' ''0xa11ce'' None (addMapping 1000 ''t1'' ''c1'' ''0xa11ce'' None [])
     = [(''t1'', \<lparr>cm_threadId = ''t1'', cm_conversationId = ''c2'', cm_walletAddress = ''0xa11ce'',
                  cm_lastActivity = 2000, cm_agentId = None\<rparr>)]
   \<and> getMapping ''t1''
        (addMapping 2000 ''t1'' ''c2'' ''0xa11ce'' None (addMapping 1000 ''t1'' ''c1'' ''0xa11ce'' None []))
     = Some \<lparr>cm_threadId = ''t1'', cm_conversationId = ''c2'', cm_walletAddress = ''0xa11ce'',
             cm_lastActivity = 2000, cm_agentId = None\<rparr>"
proof -
  have d: "distinct (map fst ([] :: conversationMappings))"
    by simp
  note T = addMapping_twice [OF d, of "''t1''" 2000 "''c2''" "''0xa11ce''" None 1000 "''c1''" "''0xa11ce''" None]
  have "addMapping 2000 ''t1'' ''c2'' ''0xa11ce'' None (addMapping 1000 ''t1'' ''c1'' ''0xa11ce'' None [])
     = [(''t1'', \<lparr>cm_threadId = ''t1'', cm_conversationId = ''c2'', cm_walletAddress = ''0xa11ce'',
                  cm_lastActivity = 2000, cm_agentId = None\<rparr>)]"
    by (simp add: addMapping_def)
  then show ?thesis
    using d T [THEN conjunct2, THEN conjunct1] by simp
qed

text \<open>
  C7. \<^verbatim>\<open>cleanupOldMappings\<close> with \<open>h\<close> hours, called at clock reading \<open>now\<close>
  (milliseconds), removes exactly the mappings whose \<^verbatim>\<open>lastActivity\<close> is earlier than
  \<open>now\<close> minus \<open>h\<close> hours, keeps the others as they are and in their order, and
  returns the number of mappings removed. A mapping last active \<open>h + 1\<close> hours ago is
  removed, one last active \<open>h - 1\<close> hours ago is kept unchanged. Without an argument
  the hours are 24.
\<close>

theorem cleanupOldMappings_evicts:
  "distinct (map fst m) \<Longrightarrow>
   fst (cleanupOldMappings now (Some h) m)
     = filter (\<lambda>e. \<not> cm_lastActivity (snd e) < now - h * 3600000) m
   \<and> snd (cleanupOldMappings now (Some h) m)
     = length (filter (\<lambda>e. cm_lastActivity (snd e) < now - h * 3600000) m)
   \<and> snd (cleanupOldMappings now (Some h) m)
     = length m - length (fst (cleanupOldMappings now (Some h) m))
   \<and> (\<forall>t v. getMapping t m = Some v \<and> cm_lastActivity v = now - (h + 1) * 3600000
        \<longrightarrow> getMapping t (fst (cleanupOldMappings now (Some h) m)) = None)
   \<and> (\<forall>t v. getMapping t m = Some v \<and> cm_lastActivity v = now - (h - 1) * 3600000
        \<longrightarrow> getMapping t (fst (cleanupOldMappings now (Some h) m)) = Some v)
   \<and> cleanupOldMappings now None m = cleanupOldMappings now (Some 24) m"
proof -
  assume d: "distinct (map fst m)"
  let ?stale = "\<lambda>e. cm_lastActivity (snd e) < now - h * 3600000"
  have eq: "cleanupOldMappings now (Some h) m
              = (filter (\<lambda>e. \<not> ?stale e) m, length (filter ?stale m))"
    using d by (rule cleanupOldMappings_filter)
  have count: "length (filter ?stale m) = length m - length (filter (\<lambda>e. \<not> ?stale e) m)"
    using sum_length_filter_compl [of ?stale m] by simp
  have gone: "getMapping t (filter (\<lambda>e. \<not> ?stale e) m) = None"
    if "getMapping t m = Some v" and "cm_lastActivity v = now - (h + 1) * 3600000" for t v
    using that map_of_filter_distinct [OF d, of t v "\<lambda>e. \<not> ?stale e"]
    by (simp add: getMapping_def algebra_simps)
  have kept: "getMapping t (filter (\<lambda>e. \<not> ?stale e) m) = Some v"
    if "getMapping t m = Some v" and "cm_lastActivity v = now - (h - 1) * 3600000" for t v
    using that map_of_filter_distinct [OF d, of t v "\<lambda>e. \<not> ?stale e"]
    by (simp add: getMapping_def algebra_simps)
  have dflt: "cleanupOldMappings now None m = cleanupOldMappings now (Some 24) m"
    by (simp add: cleanupOldMappings_def)
  show ?thesis
    unfolding eq fst_conv snd_conv using count gone kept dflt by blast
qed

theorem cleanupOldMappings_evicts_witness:
  "distinct (map fst
     [(''old'', \<lparr>cm_threadId = ''old'', cm_conversationId = ''c1'', cm_walletAddress = ''0xa'',
                 cm_lastActivity = 100000000 - 3 * 3600000, cm_agentId = None\<rparr>),
      (''new'', \<lparr>cm_threadId = ''new'', cm_conversationId = ''c2'', cm_walletAddress = ''0xb'',
                 cm_lastActivity = 100000000 - 1 * 3600000, cm_agentId = None\<rparr>)])
   \<and> cleanupOldMappings 100000000 (Some 2)
     [(''old'', \<lparr>cm_threadId = ''old'', cm_conversationId = ''c1'', cm_walletAddress = ''0xa'',
                 cm_lastActivity = 100000000 - 3 * 3600000, cm_agentId = None\<rparr>),
      (''new'', \<lparr>cm_threadId = ''new'', cm_conversationId = ''c2'', cm_walletAddress = ''0xb'',
                 cm_lastActivity = 100000000 - 1 * 3600000, cm_agentId = None\<rparr>)]
     = ([(''new'', \<lparr>cm_threadId = ''new'', cm_conversationId = ''c2'', cm_walletAddress = ''0xb'',
                     cm_lastActivity = 100000000 - 1 * 3600000, cm_agentId = None\<rparr>)], 1)"
proof -
  let ?m = "[(''old'', \<lparr>cm_threadId = ''old'', cm_conversationId = ''c1'', cm_walletAddress = ''0xa'',
                 cm_lastActivity = 100000000 - 3 * 3600000, cm_agentId = None\<rparr>),
      (''new'', \<lparr>cm_threadId = ''new'', cm_conversationId = ''c2'', cm_walletAddress = ''0xb'',
                 cm_lastActivity = 100000000 - 1 * 3600000, cm_agentId = None\<rparr>)]"
  have d: "distinct (map fst ?m)"
    by simp
  note T = cleanupOldMappings_evicts [OF d, of 100000000 2]
  have a: "fst (cleanupOldMappings 100000000 (Some 2) ?m)
             = [(''new'', \<lparr>cm_threadId = ''new'', cm_conversationId = ''c2'', cm_walletAddress = ''0xb'',
                     cm_lastActivity = 100000000 - 1 * 3600000, cm_agentId = None\<rparr>)]"
    using T [THEN conjunct1] by simp
  have b: "snd (cleanupOldMappings 100000000 (Some 2) ?m) = 1"
    using T [THEN conjunct2, THEN conjunct1] by simp
  show ?thesis
    using d a b by (simp add: prod_eq_iff)
qed

text \<open>
  C8, as stated: with thread \<open>t1\<close> mapped to conversation \<open>c1\<close> and a conversation
  lookup that succeeds, the request sends the message and answers success. When the send
  itself throws, \<^verbatim>\<open>sendReply\<close> catches the error: the answer is a failure with the
  error's message, status 500, and nothing has gone out.
\<close>

theorem post_reply_send_failure_counterexample:
  "post_reply 5000
     (Some \<lparr>getConversationById = (\<lambda>i. Inr (Some i)),
            conversation_send = (\<lambda>c t. Inl (Error ''network down''))\<rparr>)
     [(''t1'', \<lparr>cm_threadId = ''t1'', cm_conversationId = ''c1'', cm_walletAddress = ''0xa11ce'',
                cm_lastActivity = 1000, cm_agentId = None\<rparr>)]
     (Inr \<lparr>b_threadId = Some ''t1'', b_conversationId = None, b_message = Some ''hi''\<rparr>)
   = \<lparr>h_status = 500,
      h_json = \<lparr>rs_success = False, rs_error = Some ''network down'', rs_conversationId = None\<rparr>,
      h_mappings = [(''t1'', \<lparr>cm_threadId = ''t1'', cm_conversationId = ''c1'',
                              cm_walletAddress = ''0xa11ce'', cm_lastActivity = 5000,
                              cm_agentId = None\<rparr>)],
      h_sent = []\<rparr>"
  by (simp add: post_reply_def truthy_def sendReply_def resolve_conversation_def)

text \<open>
  C8, amended. \<^verbatim>\<open>POST /reply\<close> looks the conversation up by the conversation
  identifier of the request first, when one is given, and otherwise (none given, or not
  found) through the mapping of the thread identifier. With thread \<open>t1\<close> mapped to
  conversation \<open>c1\<close>, a lookup of \<open>c1\<close> that succeeds and a send that does not fail,
  the request with thread \<open>t1\<close> and message \<open>hi\<close> sends \<open>hi\<close> to \<open>c1\<close> and answers
  success with conversation identifier \<open>c1\<close>. A request that resolves to no
  conversation is answered with a failure that carries an error, and sends nothing; so
  does every request that is answered with a failure.
\<close>

theorem post_reply_resolution:
  "(truthy (rq_conversationId rq) = Some cid \<and> getConversationById cl cid = Inr (Some c) \<longrightarrow>
      resolve_conversation now cl m rq = (Some c, m))
   \<and> ((\<forall>cid c'. truthy (rq_conversationId rq) = Some cid \<longrightarrow>
                  getConversationById cl cid \<noteq> Inr (Some c'))
       \<and> truthy (rq_threadId rq) = Some threadId \<and> getMapping threadId m = Some mapping
       \<and> getConversationById cl (cm_conversationId mapping) = Inr (Some c) \<longrightarrow>
      resolve_conversation now cl m rq
        = (Some c, map_set threadId (mapping\<lparr>cm_lastActivity := now\<rparr>) m))
   \<and> (getMapping ''t1'' m = Some mapping \<and> cm_conversationId mapping = ''c1''
       \<and> getConversationById cl ''c1'' = Inr (Some ''c1'')
       \<and> conversation_send cl ''c1'' ''hi'' = Inr () \<longrightarrow>
      h_status (post_reply now (Some cl) m
         (Inr \<lparr>b_threadId = Some ''t1'', b_conversationId = None, b_message = Some ''hi''\<rparr>)) = 200
      \<and> h_json (post_reply now (Some cl) m
         (Inr \<lparr>b_threadId = Some ''t1'', b_conversationId = None, b_message = Some ''hi''\<rparr>))
          = \<lparr>rs_success = True, rs_error = None, rs_conversationId = Some ''c1''\<rparr>
      \<and> h_sent (post_reply now (Some cl) m
         (Inr \<lparr>b_threadId = Some ''t1'', b_conversationId = None, b_message = Some ''hi''\<rparr>))
          = [(''c1'', ''hi'')])
   \<and> (fst (resolve_conversation now cl m rq) = None \<longrightarrow>
      \<not> rs_success (rr_response (sendReply now (Some cl) m rq))
      \<and> rs_error (rr_response (sendReply now (Some cl) m rq)) = Some ''Conversation not found''
      \<and> rr_sent (sendReply now (Some cl) m rq) = [])
   \<and> (\<not> rs_success (h_json (post_reply now client m parsed)) \<longrightarrow>
      rs_error (h_json (post_reply now client m parsed)) \<noteq> None
      \<and> h_sent (post_reply now client m parsed) = []
      \<and> h_status (post_reply now client m parsed) \<noteq> 200)"
proof (intro conjI impI)
  assume "truthy (rq_conversationId rq) = Some cid \<and> getConversationById cl cid = Inr (Some c)"
  then show "resolve_conversation now cl m rq = (Some c, m)"
    by (simp add: resolve_direct)
next
  assume a: "(\<forall>cid c'. truthy (rq_conversationId rq) = Some cid \<longrightarrow>
                  getConversationById cl cid \<noteq> Inr (Some c'))
       \<and> truthy (rq_threadId rq) = Some threadId \<and> getMapping threadId m = Some mapping
       \<and> getConversationById cl (cm_conversationId mapping) = Inr (Some c)"
  show "resolve_conversation now cl m rq
        = (Some c, map_set threadId (mapping\<lparr>cm_lastActivity := now\<rparr>) m)"
    by (rule resolve_by_thread) (use a in \<open>simp_all add: getMapping_def\<close>)
next
  let ?body = "\<lparr>b_threadId = Some ''t1'', b_conversationId = None, b_message = Some ''hi''\<rparr>"
  let ?rq = "\<lparr>rq_threadId = Some ''t1'', rq_conversationId = None, rq_message = ''hi''\<rparr>"
  assume a: "getMapping ''t1'' m = Some mapping \<and> cm_conversationId mapping = ''c1''
       \<and> getConversationById cl ''c1'' = Inr (Some ''c1'')
       \<and> conversation_send cl ''c1'' ''hi'' = Inr ()"
  have res: "resolve_conversation now cl m ?rq
               = (Some ''c1'', map_set ''t1'' (mapping\<lparr>cm_lastActivity := now\<rparr>) m)"
    by (rule resolve_by_thread) (use a in \<open>simp_all add: getMapping_def truthy_def\<close>)
  have snd: "conversation_send cl ''c1'' (rq_message ?rq) = Inr ()"
    using a by simp
  have sr: "sendReply now (Some cl) m ?rq =
     \<lparr>rr_response = \<lparr>rs_success = True, rs_error = None, rs_conversationId = Some ''c1''\<rparr>,
      rr_mappings = map_set ''t1'' (mapping\<lparr>cm_lastActivity := now\<rparr>) m,
      rr_sent = [(''c1'', rq_message ?rq)]\<rparr>"
    using res snd by (rule sendReply_resolved)
  have pr: "post_reply now (Some cl) m (Inr ?body) =
     \<lparr>h_status = 200,
      h_json = \<lparr>rs_success = True, rs_error = None, rs_conversationId = Some ''c1''\<rparr>,
      h_mappings = map_set ''t1'' (mapping\<lparr>cm_lastActivity := now\<rparr>) m,
      h_sent = [(''c1'', ''hi'')]\<rparr>"
    by (simp add: post_reply_def truthy_def sr)
  show "h_status (post_reply now (Some cl) m (Inr ?body)) = 200"
    by (simp add: pr)
  show "h_json (post_reply now (Some cl) m (Inr ?body))
          = \<lparr>rs_success = True, rs_error = None, rs_conversationId = Some ''c1''\<rparr>"
    by (simp add: pr)
  show "h_sent (post_reply now (Some cl) m (Inr ?body)) = [(''c1'', ''hi'')]"
    by (simp add: pr)
next
  assume a: "fst (resolve_conversation now cl m rq) = None"
  note u = sendReply_unresolved [OF a]
  show "\<not> rs_success (rr_response (sendReply now (Some cl) m rq))"
    using u by simp
  show "rs_error (rr_response (sendReply now (Some cl) m rq)) = Some ''Conversation not found''"
    using u by simp
  show "rr_sent (sendReply now (Some cl) m rq) = []"
    using u by simp
next
  assume a: "\<not> rs_success (h_json (post_reply now client m parsed))"
  have all: "rs_error (h_json (post_reply now client m parsed)) \<noteq> None
      \<and> h_sent (post_reply now client m parsed) = []
      \<and> h_status (post_reply now client m parsed) \<noteq> 200"
  proof (cases parsed)
    case (Inl e)
    then show ?thesis by (simp add: post_reply_def)
  next
    case (Inr body)
    show ?thesis
    proof (cases "truthy (b_message body)")
      case None
      then show ?thesis
        using Inr by (simp add: post_reply_def bad_request_def)
    next
      case (Some message)
      show ?thesis
      proof (cases "truthy (b_threadId body) = None \<and> truthy (b_conversationId body) = None")
        case True
        then show ?thesis
          using Inr Some by (simp add: post_reply_def bad_request_def)
      next
        case False
        let ?rq = "\<lparr>rq_threadId = b_threadId body, rq_conversationId = b_conversationId body,
                    rq_message = message\<rparr>"
        have pr: "post_reply now client m parsed =
                \<lparr>h_status = (if rs_success (rr_response (sendReply now client m ?rq)) then 200 else 500),
                 h_json = rr_response (sendReply now client m ?rq),
                 h_mappings = rr_mappings (sendReply now client m ?rq),
                 h_sent = rr_sent (sendReply now client m ?rq)\<rparr>"
          using Inr Some False by (simp add: post_reply_def Let_def)
        have "\<not> rs_success (rr_response (sendReply now client m ?rq))"
          using a by (simp add: pr)
        then show ?thesis
          using sendReply_failure_sends_nothing [of now client m ?rq] by (simp add: pr)
      qed
    qed
  qed
  show "rs_error (h_json (post_reply now client m parsed)) \<noteq> None"
    using all by simp
  show "h_sent (post_reply now client m parsed) = []"
    using all by simp
  show "h_status (post_reply now client m parsed) \<noteq> 200"
    using all by simp
qed

theorem post_reply_resolution_witness:
  "post_reply 5000
     (Some \<lparr>getConversationById = (\<lambda>i. if i = ''c1'' then Inr (Some ''c1'') else Inr None),
            conversation_send = (\<lambda>c t. Inr ())\<rparr>)
     [(''t1'', \<lparr>cm_threadId = ''t1'', cm_conversationId = ''c1'', cm_walletAddress = ''0xa11ce'',
                cm_lastActivity = 1000, cm_agentId = None\<rparr>)]
     (Inr \<lparr>b_threadId = Some ''t1'', b_conversationId = None, b_message = Some ''hi''\<rparr>)
   = \<lparr>h_status = 200,
      h_json = \<lparr>rs_success = True, rs_error = None, rs_conversationId = Some ''c1''\<rparr>,
      h_mappings = [(''t1'', \<lparr>cm_threadId = ''t1'', cm_conversationId = ''c1'',
                              cm_walletAddress = ''0xa11ce'', cm_lastActivity = 5000,
                              cm_agentId = None\<rparr>)],
      h_sent = [(''c1'', ''hi'')]\<rparr>
   \<and> h_sent (post_reply 5000
     (Some \<lparr>getConversationById = (\<lambda>i. if i = ''c1'' then Inr (Some ''c1'') else Inr None),
            conversation_send = (\<lambda>c t. Inr ())\<rparr>)
     [(''t1'', \<lparr>cm_threadId = ''t1'', cm_conversationId = ''c1'', cm_walletAddress = ''0xa11ce'',
                cm_lastActivity = 1000, cm_agentId = None\<rparr>)]
     (Inr \<lparr>b_threadId = Some ''t9'', b_conversationId = None, b_message = Some ''hi''\<rparr>)) = []"
proof -
  let ?cl = "\<lparr>getConversationById = (\<lambda>i. if i = ''c1'' then Inr (Some ''c1'') else Inr None),
              conversation_send = (\<lambda>(c::string) (t::string). Inr ())\<rparr>"
  let ?mp = "\<lparr>cm_threadId = ''t1'', cm_conversationId = ''c1'', cm_walletAddress = ''0xa11ce'',
              cm_lastActivity = 1000, cm_agentId = None\<rparr>"
  let ?m = "[(''t1'', ?mp)]"
  let ?b1 = "\<lparr>b_threadId = Some ''t1'', b_conversationId = None, b_message = Some ''hi''\<rparr>"
  let ?b9 = "\<lparr>b_threadId = Some ''t9'', b_conversationId = None, b_message = Some ''hi''\<rparr>"
  let ?rq = "\<lparr>rq_threadId = Some ''t1'', rq_conversationId = None, rq_message = ''hi''\<rparr>"
  note T = post_reply_resolution
    [of ?rq "''c1''" ?cl "''c1''" 5000 ?m "''t1''" ?mp "Some ?cl" "Inr ?b9"]
  have h3: "getMapping ''t1'' ?m = Some ?mp \<and> cm_conversationId ?mp = ''c1''
       \<and> getConversationById ?cl ''c1'' = Inr (Some ''c1'')
       \<and> conversation_send ?cl ''c1'' ''hi'' = Inr ()"
    by (simp add: getMapping_def)
  note ok = T [THEN conjunct2, THEN conjunct2, THEN conjunct1, THEN mp, OF h3]
  have h5: "\<not> rs_success (h_json (post_reply 5000 (Some ?cl) ?m (Inr ?b9)))"
    by (simp add: post_reply_def truthy_def sendReply_def resolve_conversation_def)
  note failed = T [THEN conjunct2, THEN conjunct2, THEN conjunct2, THEN conjunct2, THEN mp, OF h5]
  have maps: "h_mappings (post_reply 5000 (Some ?cl) ?m (Inr ?b1))
                = [(''t1'', ?mp\<lparr>cm_lastActivity := 5000\<rparr>)]"
    by (simp add: post_reply_def truthy_def sendReply_def resolve_conversation_def)
  have "post_reply 5000 (Some ?cl) ?m (Inr ?b1)
          = \<lparr>h_status = 200,
             h_json = \<lparr>rs_success = True, rs_error = None, rs_conversationId = Some ''c1''\<rparr>,
             h_mappings = [(''t1'', ?mp\<lparr>cm_lastActivity := 5000\<rparr>)],
             h_sent = [(''c1'', ''hi'')]\<rparr>"
    using ok maps by (cases "post_reply 5000 (Some ?cl) ?m (Inr ?b1)") simp
  then show ?thesis
    using failed by simp
qed

text \<open>
  C10. The batch key is the conversation identifier, a dash and the sender address, and
  two different pairs can give the same key: the pairs \<open>(a-b, c)\<close> and \<open>(a, b-c)\<close> both
  give \<open>a-b-c\<close>. A fragment added under the first pair and one added under the second
  within the batch delay lie in one pending batch, the only one, and are flushed together
  as one combined text.
\<close>

theorem batchKey_collision:
  "batchKey_of ''a-b'' ''c'' = batchKey_of ''a'' ''b-c''
   \<and> (''a-b'', ''c'') \<noteq> (''a'', ''b-c'')
   \<and> dom (pendingMessages
        (run [Add 0 ''a-b'' ''c'' ''m1'' TextKind ''hello'' TextFlush,
              Add 10 ''a'' ''b-c'' ''m2'' TextKind ''world'' TextFlush] initial_scheduler))
       = {''a-b-c''}
   \<and> map_option (\<lambda>p. arrays
          (run [Add 0 ''a-b'' ''c'' ''m1'' TextKind ''hello'' TextFlush,
                Add 10 ''a'' ''b-c'' ''m2'' TextKind ''world'' TextFlush] initial_scheduler)
          (pm_messages p))
        (pendingMessages
          (run [Add 0 ''a-b'' ''c'' ''m1'' TextKind ''hello'' TextFlush,
                Add 10 ''a'' ''b-c'' ''m2'' TextKind ''world'' TextFlush] initial_scheduler)
          ''a-b-c'')
       = Some [\<lparr>bm_id = ''m1'', bm_type = TextKind, bm_content = ''hello'', bm_timestamp = 0\<rparr>,
               \<lparr>bm_id = ''m2'', bm_type = TextKind, bm_content = ''world'', bm_timestamp = 10\<rparr>]
   \<and> flushed
        (run [Add 0 ''a-b'' ''c'' ''m1'' TextKind ''hello'' TextFlush,
              Add 10 ''a'' ''b-c'' ''m2'' TextKind ''world'' TextFlush,
              Tick 1010] initial_scheduler)
       = [\<lparr>f_batchKey = ''a-b-c'', f_firedAt = 1010,
           f_messages =
             [\<lparr>bm_id = ''m1'', bm_type = TextKind, bm_content = ''hello'', bm_timestamp = 0\<rparr>,
              \<lparr>bm_id = ''m2'', bm_type = TextKind, bm_content = ''world'', bm_timestamp = 10\<rparr>],
           f_finalMessage = ''hello'' @ NN @ ''world''\<rparr>]"
  by (simp add: run_def addMessageToBatch_def advance_def fire_timer_def
        initial_scheduler_def batchKey_of_def clearTimeout_def MESSAGE_BATCH_DELAY_def
        finalMessage_of_def text_finalMessage_def Let_def)

text \<open>
  C9. \<^verbatim>\<open>BackendApiService.processMessage\<close> never throws, whatever its arguments and
  whatever the HTTP call does: it always returns a string. When the call fails (the
  request is rejected by a network error or the timeout, or the response's success flag
  is false) the string is the fixed apology. A caller that wraps the call in its own
  \<^verbatim>\<open>try\<close>/\<^verbatim>\<open>catch\<close> therefore never reaches its catch branch through this call.
\<close>

theorem processMessage_never_throws:
  "(\<forall>error. processMessage svc url post message sender cid agentId \<noteq> Inl error)
   \<and> (\<exists>text. processMessage svc url post message sender cid agentId = Inr text)
   \<and> (backend_failed (post (request_url svc agentId) (request_body url message sender cid)) \<longrightarrow>
        processMessage svc url post message sender cid agentId = Inr TECHNICAL_DIFFICULTIES)
   \<and> (case processMessage svc url post message sender cid agentId of
         Inl error \<Rightarrow> on_catch error
       | Inr text \<Rightarrow> on_return text)
       = on_return (projr (processMessage svc url post message sender cid agentId))"
proof -
  obtain reply where r: "processMessage svc url post message sender cid agentId = Inr reply"
    using processMessage_returns by blast
  show ?thesis
    using r processMessage_failed [of post svc agentId url message sender cid] by simp
qed

theorem processMessage_never_throws_witness:
  "backend_failed ((\<lambda>u b. AxiosError ''timeout of 120000ms exceeded'')
      (request_url \<lparr>apiUrl = ''http://backend'', defaultAgentId = ''agent1''\<rparr> None)
      (request_body None ''hello'' ''0xabc'' ''conv1''))
   \<and> processMessage \<lparr>apiUrl = ''http://backend'', defaultAgentId = ''agent1''\<rparr> None
        (\<lambda>u b. AxiosError ''timeout of 120000ms exceeded'') ''hello'' ''0xabc'' ''conv1'' None
       = Inr TECHNICAL_DIFFICULTIES
   \<and> processMessage \<lparr>apiUrl = ''http://backend'', defaultAgentId = ''agent1''\<rparr> None
        (\<lambda>u b. AxiosResponse \<lparr>r_success = False, r_data = None, r_error = Some ''busy''\<rparr>)
        ''hello'' ''0xabc'' ''conv1'' None
       = Inr TECHNICAL_DIFFICULTIES"
proof -
  let ?svc = "\<lparr>apiUrl = ''http://backend'', defaultAgentId = ''agent1''\<rparr>"
  let ?p1 = "\<lambda>(u::string) (b::backend_message_request). AxiosError ''timeout of 120000ms exceeded''"
  let ?p2 = "\<lambda>(u::string) (b::backend_message_request).
               AxiosResponse \<lparr>r_success = False, r_data = None, r_error = Some ''busy''\<rparr>"
  have f1: "backend_failed (?p1 (request_url ?svc None) (request_body None ''hello'' ''0xabc'' ''conv1''))"
    by (simp add: backend_failed_def)
  have f2: "backend_failed (?p2 (request_url ?svc None) (request_body None ''hello'' ''0xabc'' ''conv1''))"
    by (simp add: backend_failed_def)
  note T1 = processMessage_never_throws
    [of ?svc None ?p1 "''hello''" "''0xabc''" "''conv1''" None "\<lambda>e. False" "\<lambda>t. True"]
  note T2 = processMessage_never_throws
    [of ?svc None ?p2 "''hello''" "''0xabc''" "''conv1''" None "\<lambda>e. False" "\<lambda>t. True"]
  have a: "processMessage ?svc None ?p1 ''hello'' ''0xabc'' ''conv1'' None = Inr TECHNICAL_DIFFICULTIES"
    using T1 [THEN conjunct2, THEN conjunct2, THEN conjunct1] f1 by (rule mp)
  have b: "processMessage ?svc None ?p2 ''hello'' ''0xabc'' ''conv1'' None = Inr TECHNICAL_DIFFICULTIES"
    using T2 [THEN conjunct2, THEN conjunct2, THEN conjunct1] f2 by (rule mp)
  show ?thesis
    using f1 a b by simp
qed

end
